theory Spec2Isabelle
  imports Main "HOL-Library.Word" "HOL-Library.Sublist"
begin

section \<open>The context group of LiquidCore (Common/ContextGroup.cpp)\<close>

text \<open>
  The model follows \<^verbatim>\<open>ContextGroup.cpp\<close> function by function. Every function of
  the source becomes a function on the state it touches that also returns the sequence of
  effects it performs on the calling thread, in program order (a trace of events): taking
  and releasing a mutex, calls into the V8 isolate, JNI calls, deliveries of task bodies
  and callbacks.  The claims of the specification are about the order of these effects, so
  the trace is what the theorems talk about.

  \<^verbatim>\<open>__android_log_assert\<close> logs a fatal message and aborts the process; a function
  that reaches it returns \<open>None\<close> in place of its result, with the trace up to the
  assertion.
\<close>

subsection \<open>Build parameters, mutexes, events\<close>

text \<open>
  \<^verbatim>\<open>DEBUG\<close> is the preprocessor symbol tested in \<^verbatim>\<open>FreeZombies\<close>; the exit code
  \<^verbatim>\<open>CONTEXT_GARBAGE_COLLECTED_BUT_PROCESS_STILL_ACTIVE\<close> is a constant of a header
  that is not part of the sources, so it is a parameter here.
\<close>

record build =
  DEBUG :: bool
  CONTEXT_GARBAGE_COLLECTED_BUT_PROCESS_STILL_ACTIVE :: int

datatype mutex = s_mutex | m_async_mutex | m_zombie_mutex

datatype jni_status = JNI_OK | JNI_EDETACHED

datatype event =
    Lock mutex
  | Unlock mutex
  | ValueReset nat
  | V8_ISOLATE_CTX nat
  | ProcessExit nat int
  | AndroidLogAssert
  | V8_UNLOCK nat
  | ContextReset nat
  | ContextZombieRelease nat
  | DeleteContextGroupData nat
  | CallCRunnable nat nat
  | JniGetEnv nat
  | AttachCurrentThread nat
  | GetObjectClass nat
  | GetMethodID nat nat
  | ExceptionClear nat
  | GetSuperclass nat
  | DeleteLocalRef nat
  | CallVoidMethod nat
  | DeleteGlobalRefs nat
  | DetachCurrentThread nat
  | Scheduled nat
  | DeleteRunnable nat
  | UvClose nat
  | RunnablesClear
  | RemoveGCPrologueCallback nat
  | AddGCPrologueCallback nat
  | SetMicrotasksPolicy nat
  | IsolateNew nat
  | JSValueDispose nat
  | JSContextDispose nat
  | IsolateMapErase nat
  | IsolateDispose nat
  | CreateDefaultPlatform
  | V8InitializePlatform
  | V8Initialize
  | V8Dispose
  | V8ShutdownPlatform
  | DeletePlatform
  | DeleteStartupData
  | GCCallbackCall nat nat nat nat
  | Store_isDefunct
  | Store_async_handle_null
  | StdTerminate

text \<open>
  The C++ exceptions the source can end with, and how a call ends: it returns, the process
  is aborted (\<^verbatim>\<open>__android_log_assert\<close>, \<^verbatim>\<open>std::terminate\<close>), or an exception
  leaves it.
\<close>

datatype cpp_exception = bad_alloc | bad_weak_ptr

datatype 'a outcome = Returned 'a | Aborted | Threw cpp_exception

subsection \<open>The data of a context group\<close>

text \<open>
  A context zombie: the address of the \<^verbatim>\<open>JSContext\<close> and what its
  \<^verbatim>\<open>IsDefunct()\<close> answers when the drain reaches it.
\<close>

record JSContext =
  ctx_ptr :: nat
  IsDefunct :: bool

text \<open>
  \<^verbatim>\<open>struct Runnable\<close>.  \<open>rid\<close> is the address of the struct. \<open>c_runnable\<close> is the
  native closure (\<open>None\<close> when the \<^verbatim>\<open>std::function\<close> is empty).  For a Java task,
  \<open>jvm_GetEnv\<close> is what \<^verbatim>\<open>jvm->GetEnv\<close> answers on the owning thread (the source
  tells \<^verbatim>\<open>JNI_EDETACHED\<close> from every other answer), and
  \<open>thiz_class\<close>, \<open>thiz_supers\<close> say, for the class of \<^verbatim>\<open>thiz\<close> and for each of its
  superclasses in turn, whether \<^verbatim>\<open>GetMethodID(cls, "inContextCallback", ...)\<close> returns
  with no exception pending.

  \<open>arrivals\<close> is the environment's part: the tasks that \<^verbatim>\<open>sync_\<close> and
  \<^verbatim>\<open>schedule_java_runnable\<close> calls (of any thread, the task body included) append to
  \<^verbatim>\<open>m_runnables\<close> while this task runs with \<^verbatim>\<open>m_async_mutex\<close> released.  The
  wake handle exists during the drain, so such a call only appends.
\<close>

datatype Runnable = Runnable
  (rid: nat)
  (c_runnable: "nat option")
  (jvm_GetEnv: jni_status)
  (thiz_class: bool)
  (thiz_supers: "bool list")
  (arrivals: "Runnable list")

text \<open>An entry of \<^verbatim>\<open>m_gc_callbacks\<close>: the address the \<^verbatim>\<open>unique_ptr\<close> owns, and the
  two fields of \<^verbatim>\<open>struct GCCallback\<close>.\<close>

record GCCallback =
  gc_ptr :: nat
  cb :: nat
  data :: nat

text \<open>
  The members of \<^verbatim>\<open>ContextGroup\<close>.  A managed value or context is a weak pointer:
  \<open>Some a\<close> when \<^verbatim>\<open>lock()\<close> yields the object at address \<open>a\<close>, \<open>None\<close> when
  it has expired.  \<open>m_startup_data\<close> is the pair of \<^verbatim>\<open>data\<close> (\<open>None\<close> for
  \<^verbatim>\<open>nullptr\<close>) and \<^verbatim>\<open>raw_size\<close>; \<open>snapshot_blob\<close> is whether
  \<^verbatim>\<open>m_create_params.snapshot_blob\<close> points to it.
\<close>

record ContextGroup =
  m_isolate :: nat
  m_manage_isolate :: bool
  m_uv_loop :: "nat option"
  m_thread_id :: nat
  m_async_handle :: "nat option"
  m_isDefunct :: bool
  m_startup_data :: "nat list option \<times> int"
  snapshot_blob :: bool
  m_gc_callbacks :: "GCCallback list"
  m_runnables :: "Runnable list"
  m_value_zombies :: "nat list"
  m_context_zombies :: "JSContext list"
  m_managedValues :: "nat option list"
  m_managedContexts :: "nat option list"

subsection \<open>FreeZombies\<close>

text \<open>The first loop: each value zombie is copied, erased from the list, and the copy
  reset.\<close>

fun value_zombies_loop :: "nat list \<Rightarrow> event list" where
  "value_zombies_loop [] = []"
| "value_zombies_loop (v # vs) = ValueReset v # value_zombies_loop vs"

text \<open>
  The second loop.  For a context that is not defunct the source enters the isolate and
  the context (\<^verbatim>\<open>V8_ISOLATE_CTX\<close>), calls \<^verbatim>\<open>process.exit\<close> with the exit code,
  and, under \<^verbatim>\<open>#if DEBUG\<close>, calls \<^verbatim>\<open>__android_log_assert\<close>, which does not
  return.  Then it leaves the isolate (\<^verbatim>\<open>V8_UNLOCK\<close>), resets its copy of the
  pointer and goes on.
\<close>

fun context_zombies_loop :: "build \<Rightarrow> JSContext list \<Rightarrow> event list \<times> unit option" where
  "context_zombies_loop b [] = ([], Some ())"
| "context_zombies_loop b (c # cs) =
     (if \<not> IsDefunct c then
        (if DEBUG b then
           ([V8_ISOLATE_CTX (ctx_ptr c),
             ProcessExit (ctx_ptr c) (CONTEXT_GARBAGE_COLLECTED_BUT_PROCESS_STILL_ACTIVE b),
             AndroidLogAssert], None)
         else
           (case context_zombies_loop b cs of (tr, r) \<Rightarrow>
              ([V8_ISOLATE_CTX (ctx_ptr c),
                ProcessExit (ctx_ptr c) (CONTEXT_GARBAGE_COLLECTED_BUT_PROCESS_STILL_ACTIVE b),
                V8_UNLOCK (ctx_ptr c),
                ContextReset (ctx_ptr c)] @ tr, r)))
      else
        (case context_zombies_loop b cs of (tr, r) \<Rightarrow> (ContextReset (ctx_ptr c) # tr, r)))"

text \<open>\<^verbatim>\<open>m_context_zombies.clear()\<close> drops the list's own references, in list order.\<close>

definition FreeZombies :: "build \<Rightarrow> ContextGroup \<Rightarrow> event list \<times> ContextGroup option" where
  "FreeZombies b g =
     (case context_zombies_loop b (m_context_zombies g) of
        (ctr, None) \<Rightarrow>
          (Lock m_zombie_mutex # value_zombies_loop (m_value_zombies g) @ ctr, None)
      | (ctr, Some u) \<Rightarrow>
          (Lock m_zombie_mutex # value_zombies_loop (m_value_zombies g) @ ctr
             @ map (\<lambda>c. ContextZombieRelease (ctx_ptr c)) (m_context_zombies g)
             @ [Unlock m_zombie_mutex],
           Some (g\<lparr>m_value_zombies := [], m_context_zombies := []\<rparr>)))"

subsection \<open>The dispatch callback\<close>

text \<open>
  The \<^verbatim>\<open>do ... while (true)\<close> loop that looks for \<^verbatim>\<open>inContextCallback\<close>:
  \<open>c\<close> is the answer for the current class, \<open>supers\<close> the answers for its
  superclasses, \<open>n\<close> counts the classes tried.  When \<^verbatim>\<open>GetSuperclass\<close> yields
  \<^verbatim>\<open>NULL\<close> the thread is detached again if it had been attached and the source
  asserts.  \<^verbatim>\<open>GetSuperclass\<close> itself leaves no exception pending.
\<close>

fun find_inContextCallback :: "jni_status \<Rightarrow> nat \<Rightarrow> nat \<Rightarrow> bool \<Rightarrow> bool list \<Rightarrow> event list \<times> unit option" where
  "find_inContextCallback st r n c supers =
     (if c then ([GetMethodID r n], Some ())
      else
        (case supers of
           [] \<Rightarrow>
             ([GetMethodID r n, ExceptionClear r, GetSuperclass r, DeleteLocalRef r]
                @ (if st = JNI_EDETACHED then [DetachCurrentThread r] else [])
                @ [AndroidLogAssert], None)
         | s # ss \<Rightarrow>
             (case find_inContextCallback st r (Suc n) s ss of (tr, res) \<Rightarrow>
                ([GetMethodID r n, ExceptionClear r, GetSuperclass r, DeleteLocalRef r] @ tr, res))))"

text \<open>The body of the \<^verbatim>\<open>while (r)\<close> loop between the unlock and the lock: the
  native closure is called, or the Java runnable is delivered through JNI.\<close>

definition run_Runnable :: "Runnable \<Rightarrow> event list \<times> unit option" where
  "run_Runnable r =
     (case c_runnable r of
        Some f \<Rightarrow> ([CallCRunnable (rid r) f], Some ())
      | None \<Rightarrow>
          (case find_inContextCallback (jvm_GetEnv r) (rid r) 0 (thiz_class r) (thiz_supers r) of
             (tr, None) \<Rightarrow>
               (JniGetEnv (rid r)
                  # (if jvm_GetEnv r = JNI_EDETACHED then [AttachCurrentThread (rid r)] else [])
                  @ GetObjectClass (rid r) # tr, None)
           | (tr, Some u) \<Rightarrow>
               (JniGetEnv (rid r)
                  # (if jvm_GetEnv r = JNI_EDETACHED then [AttachCurrentThread (rid r)] else [])
                  @ GetObjectClass (rid r) # tr
                  @ [DeleteLocalRef (rid r), CallVoidMethod (rid r), DeleteGlobalRefs (rid r)]
                  @ (if jvm_GetEnv r = JNI_EDETACHED then [DetachCurrentThread (rid r)] else []),
                Some ())))"

text \<open>
  One turn of the \<^verbatim>\<open>while (r)\<close> loop for the task \<open>r\<close> at the front: unlock, run,
  (the environment appends \<open>arrivals r\<close> meanwhile), lock, erase the first element, delete
  \<open>r\<close>.
\<close>

definition task_turn :: "Runnable \<Rightarrow> event list" where
  "task_turn r =
     Unlock m_async_mutex # fst (run_Runnable r) @ map (\<lambda>a. Scheduled (rid a)) (arrivals r)
       @ [Lock m_async_mutex, DeleteRunnable (rid r)]"

text \<open>
  The \<^verbatim>\<open>while (r)\<close> loop on \<^verbatim>\<open>m_runnables\<close>, entered with \<^verbatim>\<open>m_async_mutex\<close>
  held.  It returns the queue it leaves.
\<close>

function drain :: "Runnable list \<Rightarrow> event list \<times> Runnable list option" where
  "drain [] = ([], Some [])"
| "drain (r # rs) =
     (case run_Runnable r of
        (tr, None) \<Rightarrow> (Unlock m_async_mutex # tr, None)
      | (tr, Some u) \<Rightarrow>
          (case drain (tl ((r # rs) @ arrivals r)) of (tr', res) \<Rightarrow>
             (task_turn r @ tr', res)))"
  by pat_completeness auto

termination drain
proof (relation "measure (\<lambda>q. sum_list (map size q))")
  fix r :: Runnable and rs :: "Runnable list"
  have "sum_list (map size (arrivals r)) < size r"
    by (cases r) (simp add: size_list_conv_sum_list)
  then show "(tl ((r # rs) @ arrivals r), r # rs) \<in> measure (\<lambda>q. sum_list (map size q))"
    by simp
qed simp

text \<open>\<^verbatim>\<open>ContextGroup::callback(handle)\<close>; \<open>h\<close> is the address of the handle.\<close>

definition callback :: "build \<Rightarrow> nat \<Rightarrow> ContextGroup \<Rightarrow> event list \<times> ContextGroup option" where
  "callback b h g =
     (case FreeZombies b g of
        (ztr, None) \<Rightarrow> (DeleteContextGroupData h # ztr, None)
      | (ztr, Some g1) \<Rightarrow>
          (case drain (m_runnables g1) of
             (dtr, None) \<Rightarrow> (DeleteContextGroupData h # ztr @ Lock m_async_mutex # dtr, None)
           | (dtr, Some q) \<Rightarrow>
               (DeleteContextGroupData h # ztr @ Lock m_async_mutex # dtr
                  @ [UvClose h, Store_async_handle_null, Unlock m_async_mutex],
                Some (g1\<lparr>m_runnables := q, m_async_handle := None\<rparr>))))"

subsection \<open>The process-wide runtime: init_v8 and dispose_v8\<close>

text \<open>
  The static members.  \<open>s_platform\<close> is whether the pointer is set.  \<open>s_init_count\<close> is
  a C \<^verbatim>\<open>int\<close>, 32 bits wide; \<^verbatim>\<open>++\<close> is addition on the word.  \<open>s_isolate_map\<close> maps
  an isolate to the address of its context group.
\<close>

record process =
  s_platform :: bool
  s_init_count :: "32 word"
  s_isolate_map :: "nat \<rightharpoonup> nat"

definition init_v8 :: "process \<Rightarrow> event list \<times> process" where
  "init_v8 p =
     (if s_init_count p = 0 then
        ([Lock s_mutex, CreateDefaultPlatform, V8InitializePlatform, V8Initialize, Unlock s_mutex],
         p\<lparr>s_init_count := s_init_count p + 1, s_platform := True\<rparr>)
      else
        ([Lock s_mutex, Unlock s_mutex], p\<lparr>s_init_count := s_init_count p + 1\<rparr>))"

text \<open>In \<^verbatim>\<open>dispose_v8\<close> the decrement \<^verbatim>\<open>--s_init_count\<close> is commented out
  ("For now, init once and never dispose"); the test of the count is still there.\<close>

definition dispose_v8 :: "process \<Rightarrow> event list \<times> process" where
  "dispose_v8 p =
     (if s_init_count p = 0 then
        ([Lock s_mutex, V8Dispose, V8ShutdownPlatform, DeletePlatform, Unlock s_mutex],
         p\<lparr>s_platform := False\<rparr>)
      else ([Lock s_mutex, Unlock s_mutex], p))"

text \<open>A sequence of calls of the two, as the constructors and \<^verbatim>\<open>Dispose\<close> of the
  context groups of a process make them.\<close>

datatype v8_call = Call_init_v8 | Call_dispose_v8

fun v8_calls :: "v8_call list \<Rightarrow> process \<Rightarrow> event list \<times> process" where
  "v8_calls [] p = ([], p)"
| "v8_calls (Call_init_v8 # cs) p =
     (case init_v8 p of (tr, p') \<Rightarrow> (case v8_calls cs p' of (tr', p'') \<Rightarrow> (tr @ tr', p'')))"
| "v8_calls (Call_dispose_v8 # cs) p =
     (case dispose_v8 p of (tr, p') \<Rightarrow> (case v8_calls cs p' of (tr', p'') \<Rightarrow> (tr @ tr', p'')))"

subsection \<open>Constructors\<close>

text \<open>
  \<open>this\<close> is the address of the new object, \<open>isolate\<close> the isolate that
  \<^verbatim>\<open>Isolate::New\<close> returns, \<open>tid\<close> the calling thread.
\<close>

definition ContextGroup_new :: "nat \<Rightarrow> nat \<Rightarrow> nat \<Rightarrow> process \<Rightarrow> event list \<times> process \<times> ContextGroup" where
  "ContextGroup_new this isolate tid p =
     (case init_v8 p of (tr, p1) \<Rightarrow>
        (tr @ [IsolateNew isolate, AddGCPrologueCallback isolate, SetMicrotasksPolicy isolate],
         p1\<lparr>s_isolate_map := (s_isolate_map p1)(isolate \<mapsto> this)\<rparr>,
         \<lparr>m_isolate = isolate, m_manage_isolate = True, m_uv_loop = None, m_thread_id = tid,
          m_async_handle = None, m_isDefunct = False, m_startup_data = (None, 0),
          snapshot_blob = False, m_gc_callbacks = [], m_runnables = [],
          m_value_zombies = [], m_context_zombies = [], m_managedValues = [],
          m_managedContexts = []\<rparr>))"

definition ContextGroup_adopt :: "nat \<Rightarrow> nat \<Rightarrow> nat \<Rightarrow> nat \<Rightarrow> process \<Rightarrow> event list \<times> process \<times> ContextGroup" where
  "ContextGroup_adopt this isolate uv_loop tid p =
     ([Lock s_mutex, Unlock s_mutex, AddGCPrologueCallback isolate],
      p\<lparr>s_isolate_map := (s_isolate_map p)(isolate \<mapsto> this)\<rparr>,
      \<lparr>m_isolate = isolate, m_manage_isolate = False, m_uv_loop = Some uv_loop,
       m_thread_id = tid, m_async_handle = None, m_isDefunct = False,
       m_startup_data = (None, 0), snapshot_blob = False, m_gc_callbacks = [],
       m_runnables = [], m_value_zombies = [], m_context_zombies = [],
       m_managedValues = [], m_managedContexts = []\<rparr>)"

text \<open>\<^verbatim>\<open>ContextGroup(char *snapshot, int size)\<close>: the blob is used only
  \<^verbatim>\<open>if (snapshot && size)\<close>.\<close>

definition ContextGroup_snapshot :: "nat \<Rightarrow> nat \<Rightarrow> nat \<Rightarrow> nat list option \<Rightarrow> int \<Rightarrow> process \<Rightarrow> event list \<times> process \<times> ContextGroup" where
  "ContextGroup_snapshot this isolate tid snapshot sz p =
     (case init_v8 p of (tr, p1) \<Rightarrow>
        (tr @ [IsolateNew isolate, AddGCPrologueCallback isolate, SetMicrotasksPolicy isolate],
         p1\<lparr>s_isolate_map := (s_isolate_map p1)(isolate \<mapsto> this)\<rparr>,
         \<lparr>m_isolate = isolate, m_manage_isolate = True, m_uv_loop = None, m_thread_id = tid,
          m_async_handle = None, m_isDefunct = False, m_startup_data = (snapshot, sz),
          snapshot_blob = (snapshot \<noteq> None \<and> sz \<noteq> 0), m_gc_callbacks = [],
          m_runnables = [], m_value_zombies = [], m_context_zombies = [],
          m_managedValues = [], m_managedContexts = []\<rparr>))"

subsection \<open>ContextGroup::New(snapshotFile)\<close>

text \<open>
  What the run-time library answers during the call: whether \<^verbatim>\<open>fopen\<close> returns a
  stream, the \<^verbatim>\<open>long\<close> that \<^verbatim>\<open>ftell\<close> returns after the seek to the end (the size of
  a regular file; \<open>-1\<close> when the stream cannot tell its position, as for a FIFO), whether
  \<^verbatim>\<open>operator new[]\<close> obtains the memory for \<^verbatim>\<open>new char[size]\<close> (it does not for a
  size like the \<^verbatim>\<open>LONG_MAX\<close> that \<^verbatim>\<open>ftell\<close> reports for a directory), and the
  bytes \<^verbatim>\<open>fread\<close> delivers (their number is its return value).

  \<^verbatim>\<open>new char[size]\<close> with a negative \<open>size\<close> throws
  \<^verbatim>\<open>std::bad_array_new_length\<close>, a \<^verbatim>\<open>std::bad_alloc\<close>, and with a size it cannot
  obtain it throws \<^verbatim>\<open>std::bad_alloc\<close>; the source has no handler, so \<^verbatim>\<open>New\<close> ends
  with the exception.  The constructor takes an \<^verbatim>\<open>int\<close>: the \<^verbatim>\<open>long\<close> is narrowed to
  32 bits.
\<close>

record snapshot_file =
  fopen_ok :: bool
  ftell_result :: int
  new_char_ok :: bool
  fread_bytes :: "nat list"

definition New :: "snapshot_file \<Rightarrow> nat \<Rightarrow> nat \<Rightarrow> nat \<Rightarrow> process \<Rightarrow> cpp_exception + (event list \<times> process \<times> ContextGroup)" where
  "New f this isolate tid p =
     (if fopen_ok f then
        (if ftell_result f < 0 then Inl bad_alloc
         else if \<not> new_char_ok f then Inl bad_alloc
         else if int (length (fread_bytes f)) \<noteq> ftell_result f
         then Inr (ContextGroup_new this isolate tid p)
         else Inr (ContextGroup_snapshot this isolate tid (Some (fread_bytes f))
                     (signed_take_bit 31 (ftell_result f)) p))
      else Inr (ContextGroup_new this isolate tid p))"

subsection \<open>GC callbacks\<close>

text \<open>\<open>p\<close> is the address of the \<^verbatim>\<open>struct GCCallback\<close> that \<^verbatim>\<open>new\<close> returns.\<close>

definition RegisterGCCallback :: "nat \<Rightarrow> nat \<Rightarrow> nat \<Rightarrow> ContextGroup \<Rightarrow> ContextGroup" where
  "RegisterGCCallback p c d g =
     g\<lparr>m_gc_callbacks := m_gc_callbacks g @ [\<lparr>gc_ptr = p, cb = c, data = d\<rparr>]\<rparr>"

text \<open>\<^verbatim>\<open>std::list::remove(item)\<close> erases every element that compares equal to
  \<open>item\<close>; two \<^verbatim>\<open>unique_ptr\<close>s are equal when they hold the same address.\<close>

definition list_remove :: "GCCallback \<Rightarrow> GCCallback list \<Rightarrow> GCCallback list" where
  "list_remove item l = filter (\<lambda>x. gc_ptr x \<noteq> gc_ptr item) l"

text \<open>
  The loop of \<^verbatim>\<open>UnregisterGCCallback\<close>: \<open>l\<close> is the whole list, the last argument the
  elements from the iterator to the end.  The iterator is advanced before the element is
  tested and removed.
\<close>

function unregister_loop :: "nat \<Rightarrow> nat \<Rightarrow> GCCallback list \<Rightarrow> GCCallback list \<Rightarrow> GCCallback list" where
  "unregister_loop c d l [] = l"
| "unregister_loop c d l (item # rest) =
     (if cb item = c \<and> data item = d
      then unregister_loop c d (list_remove item l) (list_remove item rest)
      else unregister_loop c d l rest)"
  by pat_completeness auto

termination unregister_loop
  by (relation "measure (\<lambda>(c, d, l, rest). length rest)")
    (simp_all add: list_remove_def less_Suc_eq_le)

definition UnregisterGCCallback :: "nat \<Rightarrow> nat \<Rightarrow> ContextGroup \<Rightarrow> ContextGroup" where
  "UnregisterGCCallback c d g =
     g\<lparr>m_gc_callbacks := unregister_loop c d (m_gc_callbacks g) (m_gc_callbacks g)\<rparr>"

definition GCPrologueCallback :: "ContextGroup \<Rightarrow> nat \<Rightarrow> nat \<Rightarrow> event list" where
  "GCPrologueCallback g type flags =
     map (\<lambda>item. GCCallbackCall (cb item) type flags (data item)) (m_gc_callbacks g)"

text \<open>\<open>groups\<close> reads the context group at an address.\<close>

definition StaticGCPrologueCallback :: "process \<Rightarrow> (nat \<Rightarrow> ContextGroup) \<Rightarrow> nat \<Rightarrow> nat \<Rightarrow> nat \<Rightarrow> event list" where
  "StaticGCPrologueCallback p groups isolate type flags =
     Lock s_mutex
       # (case s_isolate_map p isolate of
            None \<Rightarrow> []
          | Some this \<Rightarrow> GCPrologueCallback (groups this) type flags)
       @ [Unlock s_mutex]"

subsection \<open>Dispose and the destructor\<close>

text \<open>The two loops over the managed objects: an expired weak pointer is skipped.
  \<^verbatim>\<open>JSValue::Dispose\<close> and \<^verbatim>\<open>JSContext::Dispose\<close> belong to other classes; a
  call of one is an event.\<close>

fun managed_values_loop :: "nat option list \<Rightarrow> event list" where
  "managed_values_loop [] = []"
| "managed_values_loop (w # ws) =
     (case w of None \<Rightarrow> managed_values_loop ws
      | Some valid \<Rightarrow> JSValueDispose valid # managed_values_loop ws)"

fun managed_contexts_loop :: "nat option list \<Rightarrow> event list" where
  "managed_contexts_loop [] = []"
| "managed_contexts_loop (w # ws) =
     (case w of None \<Rightarrow> managed_contexts_loop ws
      | Some valid \<Rightarrow> JSContextDispose valid # managed_contexts_loop ws)"

text \<open>
  \<^verbatim>\<open>ContextGroup::Dispose\<close>, on the static members and the group.  \<open>owned\<close> is
  whether a \<^verbatim>\<open>shared_ptr\<close> owns the group when the call is made.  The first statement
  inside the guard is \<^verbatim>\<open>auto wait = shared_from_this()\<close>: when no \<^verbatim>\<open>shared_ptr\<close> owns
  the group it throws \<^verbatim>\<open>bad_weak_ptr\<close>, before anything else is done; otherwise
  \<open>wait\<close> only keeps the object alive until \<^verbatim>\<open>wait.reset()\<close> and leaves no event.
  \<^verbatim>\<open>delete [] m_startup_data.data\<close> does not change the pointer member.
\<close>

definition Dispose :: "build \<Rightarrow> bool \<Rightarrow> process \<times> ContextGroup \<Rightarrow> event list \<times> (process \<times> ContextGroup) outcome" where
  "Dispose b owned s =
     (case s of (p, g) \<Rightarrow>
        if m_isDefunct g then ([], Returned (p, g))
        else if \<not> owned then ([], Threw bad_weak_ptr)
        else
          (case FreeZombies b
                  (g\<lparr>m_runnables := [], m_isDefunct := True,
                     m_managedValues := [], m_managedContexts := []\<rparr>) of
             (ztr, None) \<Rightarrow>
               (RunnablesClear # RemoveGCPrologueCallback (m_isolate g)
                  # managed_values_loop (m_managedValues g)
                  @ managed_contexts_loop (m_managedContexts g)
                  @ Store_isDefunct # ztr, Aborted)
           | (ztr, Some g') \<Rightarrow>
               (case (if m_manage_isolate g
                      then ([IsolateDispose (m_isolate g)],
                            p\<lparr>s_isolate_map := (s_isolate_map p)(m_isolate g := None)\<rparr>)
                      else dispose_v8
                            (p\<lparr>s_isolate_map := (s_isolate_map p)(m_isolate g := None)\<rparr>)) of
                  (vtr, p') \<Rightarrow>
                    (RunnablesClear # RemoveGCPrologueCallback (m_isolate g)
                       # managed_values_loop (m_managedValues g)
                       @ managed_contexts_loop (m_managedContexts g)
                       @ Store_isDefunct # ztr
                       @ Lock s_mutex
                       # (if s_isolate_map p (m_isolate g) \<noteq> None
                          then [IsolateMapErase (m_isolate g)] else [])
                       @ Unlock s_mutex # vtr
                       @ (if fst (m_startup_data g) \<noteq> None \<and> snd (m_startup_data g) \<noteq> 0
                          then [DeleteStartupData] else []),
                     Returned (p', g')))))"

text \<open>
  \<^verbatim>\<open>ContextGroup::~ContextGroup()\<close> calls \<^verbatim>\<open>Dispose()\<close>.  When the destructor runs,
  no \<^verbatim>\<open>shared_ptr\<close> owns the object (the last one is gone, or there never was one), so
  on a group that is not defunct \<^verbatim>\<open>shared_from_this()\<close> throws; the exception leaves
  a destructor, and \<^verbatim>\<open>std::terminate\<close> ends the process.
\<close>

definition destructor :: "build \<Rightarrow> process \<times> ContextGroup \<Rightarrow> event list \<times> (process \<times> ContextGroup) outcome" where
  "destructor b s =
     (case Dispose b False s of
        (tr, Threw e) \<Rightarrow> (tr @ [StdTerminate], Aborted)
      | (tr, Returned s') \<Rightarrow> (tr, Returned s')
      | (tr, Aborted) \<Rightarrow> (tr, Aborted))"

subsection \<open>sync_ and the thread that runs its task\<close>

text \<open>
  \<^verbatim>\<open>sync_\<close> runs on the calling thread; the closure it queues runs on the owning
  thread, inside the dispatch callback.  The two are modelled statement by statement, each
  thread with a program counter, over the variables they share: the local \<^verbatim>\<open>signaled\<close>
  of \<^verbatim>\<open>sync_\<close> (captured by reference), \<^verbatim>\<open>m_async_mutex\<close>, and whether the task is
  in \<^verbatim>\<open>m_runnables\<close>.  A schedule chooses which thread moves; a move that is not
  possible (a lock that is taken, a blocked wait) leaves the state as it is.
\<close>

datatype thread = Caller | Owner | Other

text \<open>Where the caller stands in \<^verbatim>\<open>sync_\<close>.\<close>

datatype caller_pc =
    Sync_entry
  | Sync_locked
  | Sync_pushed
  | Sync_wait
  | Sync_blocked
  | Sync_woken
  | Sync_passed
  | Sync_returned
  | Sync_threw

text \<open>Where the owning thread stands in the closure
  \<^verbatim>\<open>[&]() { runnable(); { lock_guard lk(m_async_mutex); signaled = true; } cv.notify_one(); }\<close>.\<close>

datatype owner_pc =
    Owner_idle
  | Owner_in_runnable
  | Owner_runnable_done
  | Owner_guard
  | Owner_stored
  | Owner_unlocked
  | Owner_notified

text \<open>\<open>runnable_called\<close> and \<open>runnable_returned\<close> count how often \<^verbatim>\<open>runnable()\<close>, the
  task body handed to \<^verbatim>\<open>sync_\<close>, has been entered and has returned; \<open>runnable_thread\<close>
  is the thread that entered it last.\<close>

record sync_state =
  caller :: caller_pc
  owner :: owner_pc
  signaled :: bool
  async_mutex :: "thread option"
  queued :: bool
  runnable_called :: nat
  runnable_returned :: nat
  runnable_thread :: "thread option"

datatype action =
    Caller_step
  | Owner_step
  | Spurious_wakeup
  | Other_lock
  | Other_unlock
  | Dispose_clear
  | Caller_throws

definition sync_init :: sync_state where
  "sync_init = \<lparr>caller = Sync_entry, owner = Owner_idle, signaled = False,
     async_mutex = None, queued = False, runnable_called = 0, runnable_returned = 0,
     runnable_thread = None\<rparr>"

text \<open>
  The caller: \<^verbatim>\<open>unique_lock lk(m_async_mutex)\<close>; \<^verbatim>\<open>push_back\<close>; the handle test;
  \<^verbatim>\<open>cv.wait(lk, [&]{return signaled;})\<close>, which tests the predicate with the mutex held and
  blocks with the mutex released while it is false; \<^verbatim>\<open>lk.unlock()\<close>.
\<close>

definition caller_step :: "sync_state \<Rightarrow> sync_state" where
  "caller_step s =
     (case caller s of
        Sync_entry \<Rightarrow>
          (if async_mutex s = None then s\<lparr>caller := Sync_locked, async_mutex := Some Caller\<rparr>
           else s)
      | Sync_locked \<Rightarrow> s\<lparr>caller := Sync_pushed, queued := True\<rparr>
      | Sync_pushed \<Rightarrow> s\<lparr>caller := Sync_wait\<rparr>
      | Sync_wait \<Rightarrow>
          (if signaled s then s\<lparr>caller := Sync_passed\<rparr>
           else s\<lparr>caller := Sync_blocked, async_mutex := None\<rparr>)
      | Sync_blocked \<Rightarrow> s
      | Sync_woken \<Rightarrow>
          (if async_mutex s = None then s\<lparr>caller := Sync_wait, async_mutex := Some Caller\<rparr>
           else s)
      | Sync_passed \<Rightarrow> s\<lparr>caller := Sync_returned, async_mutex := None\<rparr>
      | Sync_returned \<Rightarrow> s
      | Sync_threw \<Rightarrow> s)"

text \<open>
  The owning thread: the callback takes the task at the front with the mutex and calls
  the closure with the mutex released, which enters \<^verbatim>\<open>runnable()\<close>; \<^verbatim>\<open>runnable()\<close>
  runs and returns; the
  \<^verbatim>\<open>lock_guard\<close> is taken; \<^verbatim>\<open>signaled = true\<close>; the guard is released;
  \<^verbatim>\<open>cv.notify_one()\<close> wakes the caller if it is blocked.
\<close>

definition owner_step :: "sync_state \<Rightarrow> sync_state" where
  "owner_step s =
     (case owner s of
        Owner_idle \<Rightarrow>
          (if queued s \<and> async_mutex s = None
           then s\<lparr>owner := Owner_in_runnable, runnable_called := Suc (runnable_called s),
                  runnable_thread := Some Owner\<rparr>
           else s)
      | Owner_in_runnable \<Rightarrow>
          s\<lparr>owner := Owner_runnable_done, runnable_returned := Suc (runnable_returned s)\<rparr>
      | Owner_runnable_done \<Rightarrow>
          (if async_mutex s = None then s\<lparr>owner := Owner_guard, async_mutex := Some Owner\<rparr>
           else s)
      | Owner_guard \<Rightarrow> s\<lparr>owner := Owner_stored, signaled := True\<rparr>
      | Owner_stored \<Rightarrow> s\<lparr>owner := Owner_unlocked, async_mutex := None\<rparr>
      | Owner_unlocked \<Rightarrow>
          s\<lparr>owner := Owner_notified,
            caller := (if caller s = Sync_blocked then Sync_woken else caller s)\<rparr>
      | Owner_notified \<Rightarrow> s)"

text \<open>
  The other moves: a wait may wake without a notification; other threads take and release
  the mutex (to schedule tasks of their own); \<^verbatim>\<open>Dispose\<close> clears \<^verbatim>\<open>m_runnables\<close>,
  which removes the task if the callback has not taken it yet.  Before its wait the
  caller may leave \<^verbatim>\<open>sync_\<close> with an exception: \<^verbatim>\<open>new\<close> and \<^verbatim>\<open>push_back\<close> may
  throw \<^verbatim>\<open>bad_alloc\<close>, and \<^verbatim>\<open>shared_from_this()\<close> in the handle branch throws
  \<^verbatim>\<open>bad_weak_ptr\<close> when no \<^verbatim>\<open>shared_ptr\<close> owns the group; the \<^verbatim>\<open>unique_lock\<close>
  releases the mutex if the caller holds it.
\<close>

definition step :: "action \<Rightarrow> sync_state \<Rightarrow> sync_state" where
  "step a s =
     (case a of
        Caller_step \<Rightarrow> caller_step s
      | Owner_step \<Rightarrow> owner_step s
      | Spurious_wakeup \<Rightarrow> (if caller s = Sync_blocked then s\<lparr>caller := Sync_woken\<rparr> else s)
      | Other_lock \<Rightarrow> (if async_mutex s = None then s\<lparr>async_mutex := Some Other\<rparr> else s)
      | Other_unlock \<Rightarrow> (if async_mutex s = Some Other then s\<lparr>async_mutex := None\<rparr> else s)
      | Dispose_clear \<Rightarrow> (if owner s = Owner_idle then s\<lparr>queued := False\<rparr> else s)
      | Caller_throws \<Rightarrow>
          (if caller s = Sync_entry \<or> caller s = Sync_locked \<or> caller s = Sync_pushed
           then s\<lparr>caller := Sync_threw,
                  async_mutex := (if async_mutex s = Some Caller then None else async_mutex s)\<rparr>
           else s))"

fun run :: "action list \<Rightarrow> sync_state \<Rightarrow> sync_state" where
  "run [] s = s"
| "run (a # as) s = run as (step a s)"

text \<open>The task body has fully executed on the owning thread: \<^verbatim>\<open>runnable()\<close> has been
  entered once, by the owning thread, and has returned once.\<close>

definition runnable_finished :: "sync_state \<Rightarrow> bool" where
  "runnable_finished s =
     (runnable_called s = 1 \<and> runnable_returned s = 1 \<and> runnable_thread s = Some Owner)"

text \<open>
  What holds in every state the two threads can reach: \<^verbatim>\<open>signaled\<close> is true exactly
  when the owning thread is past the store in the closure, the caller is past its wait
  only when \<^verbatim>\<open>signaled\<close> is true, and the counts of \<^verbatim>\<open>runnable()\<close> are what the
  place of the owning thread in the closure says.
\<close>

definition sync_inv :: "sync_state \<Rightarrow> bool" where
  "sync_inv s \<longleftrightarrow>
     (signaled s \<longleftrightarrow>
        owner s = Owner_stored \<or> owner s = Owner_unlocked \<or> owner s = Owner_notified)
     \<and> (caller s = Sync_passed \<or> caller s = Sync_returned \<longrightarrow> signaled s)
     \<and> (owner s = Owner_idle \<longrightarrow>
          runnable_called s = 0 \<and> runnable_returned s = 0 \<and> runnable_thread s = None)
     \<and> (owner s = Owner_in_runnable \<longrightarrow>
          runnable_called s = 1 \<and> runnable_returned s = 0 \<and> runnable_thread s = Some Owner)
     \<and> (owner s \<noteq> Owner_idle \<and> owner s \<noteq> Owner_in_runnable \<longrightarrow>
          runnable_called s = 1 \<and> runnable_returned s = 1 \<and> runnable_thread s = Some Owner)"

text \<open>A schedule on which \<^verbatim>\<open>sync_\<close> returns: the caller queues the task and blocks, the
  owning thread runs the closure to its end, the caller wakes up and returns.\<close>

definition example_schedule :: "action list" where
  "example_schedule =
     [Caller_step, Caller_step, Caller_step, Caller_step,
      Owner_step, Owner_step, Owner_step, Owner_step, Owner_step, Owner_step,
      Caller_step, Caller_step, Caller_step]"

subsection \<open>Reading a trace\<close>

text \<open>The tasks whose bodies were delivered, in order: the calls of a native closure and
  the \<^verbatim>\<open>CallVoidMethod\<close> deliveries of a Java runnable.\<close>

definition executed :: "event list \<Rightarrow> nat list" where
  "executed tr =
     concat (map (\<lambda>e. case e of CallCRunnable r f \<Rightarrow> [r] | CallVoidMethod r \<Rightarrow> [r] | _ \<Rightarrow> []) tr)"

text \<open>The calls of \<^verbatim>\<open>process.exit\<close>: the context and the exit code.\<close>

definition exit_calls :: "event list \<Rightarrow> (nat \<times> int) list" where
  "exit_calls tr = concat (map (\<lambda>e. case e of ProcessExit c n \<Rightarrow> [(c, n)] | _ \<Rightarrow> []) tr)"

text \<open>The mutexes held after a trace, given those held before it.\<close>

fun held :: "mutex set \<Rightarrow> event list \<Rightarrow> mutex set" where
  "held H [] = H"
| "held H (Lock m # tr) = held (insert m H) tr"
| "held H (Unlock m # tr) = held (H - {m}) tr"
| "held H (e # tr) = held H tr"

text \<open>
  A call into the API of the engine instance (the isolate and what lives in it): entering
  and leaving the isolate, the call of \<^verbatim>\<open>process.exit\<close>, the calls on
  \<^verbatim>\<open>m_isolate\<close>.
\<close>

definition engine_call :: "event \<Rightarrow> bool" where
  "engine_call e =
     (case e of
        V8_ISOLATE_CTX c \<Rightarrow> True
      | ProcessExit c n \<Rightarrow> True
      | V8_UNLOCK c \<Rightarrow> True
      | RemoveGCPrologueCallback i \<Rightarrow> True
      | AddGCPrologueCallback i \<Rightarrow> True
      | SetMicrotasksPolicy i \<Rightarrow> True
      | IsolateDispose i \<Rightarrow> True
      | _ \<Rightarrow> False)"

text \<open>The delivery of a callback to the host: a task body (native closure or Java
  runnable), or a registered GC callback.\<close>

definition host_callback :: "event \<Rightarrow> bool" where
  "host_callback e =
     (case e of
        CallCRunnable r f \<Rightarrow> True
      | CallVoidMethod r \<Rightarrow> True
      | GCCallbackCall c t f d \<Rightarrow> True
      | _ \<Rightarrow> False)"

text \<open>The tasks scheduled by the environment during the drain, in order.\<close>

definition scheduled :: "event list \<Rightarrow> nat list" where
  "scheduled tr = concat (map (\<lambda>e. case e of Scheduled r \<Rightarrow> [r] | _ \<Rightarrow> []) tr)"

text \<open>
  What the claims say the drain does for one context zombie when no assertion stops it:
  nothing but the reset of the local pointer when the context is defunct; otherwise one
  call of \<^verbatim>\<open>process.exit\<close> with the exit code, inside the isolate, before the reset.
\<close>

definition context_zombie_pass :: "build \<Rightarrow> JSContext \<Rightarrow> event list" where
  "context_zombie_pass b c =
     (if IsDefunct c then [ContextReset (ctx_ptr c)]
      else [V8_ISOLATE_CTX (ctx_ptr c),
            ProcessExit (ctx_ptr c) (CONTEXT_GARBAGE_COLLECTED_BUT_PROCESS_STILL_ACTIVE b),
            V8_UNLOCK (ctx_ptr c),
            ContextReset (ctx_ptr c)])"

text \<open>
  The engine calls and host callbacks of a trace, each with the set of mutexes the thread
  holds when it makes the call; \<open>H\<close> is the set held at the start of the trace.
\<close>

fun calls_held :: "mutex set \<Rightarrow> event list \<Rightarrow> (event \<times> mutex set) list" where
  "calls_held H [] = []"
| "calls_held H (e # tr) =
     (if engine_call e \<or> host_callback e then [(e, H)] else []) @ calls_held (held H [e]) tr"

text \<open>The weak pointers of a managed list that still yield their object.\<close>

definition live :: "nat option list \<Rightarrow> nat list" where
  "live ws = concat (map (\<lambda>w. case w of None \<Rightarrow> [] | Some a \<Rightarrow> [a]) ws)"

subsection \<open>Example states\<close>

definition release_build :: build where
  "release_build = \<lparr>DEBUG = False, CONTEXT_GARBAGE_COLLECTED_BUT_PROCESS_STILL_ACTIVE = -222\<rparr>"

definition debug_build :: build where
  "debug_build = \<lparr>DEBUG = True, CONTEXT_GARBAGE_COLLECTED_BUT_PROCESS_STILL_ACTIVE = -222\<rparr>"

text \<open>The static members when the process starts.\<close>

definition fresh_process :: process where
  "fresh_process = \<lparr>s_platform = False, s_init_count = 0, s_isolate_map = Map.empty\<rparr>"

text \<open>A process in which one group has been constructed, and the isolate 7 belongs to the
  group at address 100.\<close>

definition example_process :: process where
  "example_process = \<lparr>s_platform = True, s_init_count = 1, s_isolate_map = [7 \<mapsto> 100]\<rparr>"

text \<open>Three tasks: while the native task 1 runs, task 3 is scheduled; task 2 is a Java
  runnable on a detached thread whose method is found in the superclass.\<close>

definition task3 :: Runnable where
  "task3 = Runnable 3 (Some 30) JNI_OK True [] []"

definition task1 :: Runnable where
  "task1 = Runnable 1 (Some 10) JNI_OK True [] [task3]"

definition task2 :: Runnable where
  "task2 = Runnable 2 None JNI_EDETACHED False [True] []"

text \<open>A group that owns its isolate, built from a snapshot of three bytes, with pending
  tasks, zombies (the contexts 52 and 53 are not defunct), managed objects and GC
  callbacks.\<close>

definition example_group :: ContextGroup where
  "example_group =
     \<lparr>m_isolate = 7, m_manage_isolate = True, m_uv_loop = None, m_thread_id = 1,
      m_async_handle = Some 9, m_isDefunct = False, m_startup_data = (Some [1, 2, 3], 3),
      snapshot_blob = True,
      m_gc_callbacks = [\<lparr>gc_ptr = 80, cb = 1, data = 5\<rparr>, \<lparr>gc_ptr = 81, cb = 2, data = 5\<rparr>,
                        \<lparr>gc_ptr = 82, cb = 1, data = 5\<rparr>],
      m_runnables = [task1, task2],
      m_value_zombies = [41, 42],
      m_context_zombies = [\<lparr>ctx_ptr = 51, IsDefunct = True\<rparr>, \<lparr>ctx_ptr = 52, IsDefunct = False\<rparr>,
                           \<lparr>ctx_ptr = 53, IsDefunct = False\<rparr>],
      m_managedValues = [Some 61, None, Some 62],
      m_managedContexts = [Some 71]\<rparr>"

text \<open>The same group as one that adopted the isolate of somebody else.\<close>

definition adopted_group :: ContextGroup where
  "adopted_group =
     example_group\<lparr>m_manage_isolate := False, m_uv_loop := Some 5,
       m_startup_data := (None, 0), snapshot_blob := False\<rparr>"

text \<open>A path that \<^verbatim>\<open>fopen\<close> opens but whose stream cannot tell its position, as a
  FIFO: \<^verbatim>\<open>ftell\<close> returns \<open>-1\<close>.\<close>

definition unseekable_file :: snapshot_file where
  "unseekable_file =
     \<lparr>fopen_ok = True, ftell_result = - 1, new_char_ok = True, fread_bytes = []\<rparr>"

text \<open>A path that cannot be opened; a file of four bytes of which \<^verbatim>\<open>fread\<close> delivers
  two; the same file read in full.\<close>

definition missing_file :: snapshot_file where
  "missing_file =
     \<lparr>fopen_ok = False, ftell_result = 0, new_char_ok = True, fread_bytes = []\<rparr>"

definition short_read_file :: snapshot_file where
  "short_read_file =
     \<lparr>fopen_ok = True, ftell_result = 4, new_char_ok = True, fread_bytes = [1, 2]\<rparr>"

definition whole_file :: snapshot_file where
  "whole_file =
     \<lparr>fopen_ok = True, ftell_result = 4, new_char_ok = True, fread_bytes = [1, 2, 3, 4]\<rparr>"

text \<open>A directory: \<^verbatim>\<open>fopen\<close> opens it, \<^verbatim>\<open>ftell\<close> reports \<^verbatim>\<open>LONG_MAX\<close>, and that much
  memory cannot be obtained.\<close>

definition directory_file :: snapshot_file where
  "directory_file =
     \<lparr>fopen_ok = True, ftell_result = 9223372036854775807, new_char_ok = False,
      fread_bytes = []\<rparr>"

text \<open>The heap of the example: the group at every address is the example group.\<close>

definition example_groups :: "nat \<Rightarrow> ContextGroup" where
  "example_groups a = example_group"

section \<open>Properties\<close>

subsection \<open>Traces of the zombie drain\<close>

lemma value_zombies_loop_map: "value_zombies_loop vs = map ValueReset vs"
  by (induction vs) simp_all

lemma executed_Nil: "executed [] = []"
  by (simp add: executed_def)

lemma executed_Cons:
  "executed (e # tr) =
     (case e of CallCRunnable r f \<Rightarrow> [r] | CallVoidMethod r \<Rightarrow> [r] | _ \<Rightarrow> []) @ executed tr"
  by (simp add: executed_def)

lemma executed_append: "executed (xs @ ys) = executed xs @ executed ys"
  by (simp add: executed_def)

lemma executed_value_zombies: "executed (value_zombies_loop vs) = []"
  by (induction vs) (simp_all add: executed_Nil executed_Cons)

lemma executed_context_zombies: "executed (fst (context_zombies_loop b cs)) = []"
  by (induction cs) (auto simp: executed_Nil executed_Cons split: prod.splits)

lemma executed_releases: "executed (map (\<lambda>c. ContextZombieRelease (ctx_ptr c)) cs) = []"
  by (induction cs) (simp_all add: executed_Nil executed_Cons)

lemma executed_FreeZombies: "executed (fst (FreeZombies b g)) = []"
proof -
  obtain ctr r where c: "context_zombies_loop b (m_context_zombies g) = (ctr, r)"
    by (cases "context_zombies_loop b (m_context_zombies g)")
  from executed_context_zombies [of b "m_context_zombies g"] c have "executed ctr = []"
    by simp
  with c show ?thesis
    by (cases r)
      (simp_all add: FreeZombies_def executed_Nil executed_Cons executed_append
        executed_value_zombies executed_releases)
qed

lemma FreeZombies_isDefunct:
  "FreeZombies b g = (tr, Some g') \<Longrightarrow> m_isDefunct g' = m_isDefunct g"
  by (auto simp: FreeZombies_def split: prod.splits option.splits)

lemma FreeZombies_runnables:
  "FreeZombies b g = (tr, Some g') \<Longrightarrow> m_runnables g' = m_runnables g"
  by (auto simp: FreeZombies_def split: prod.splits option.splits)

lemma context_zombies_loop_returns:
  "\<not> DEBUG b \<or> (\<forall>c \<in> set cs. IsDefunct c) \<Longrightarrow>
     context_zombies_loop b cs = (concat (map (context_zombie_pass b) cs), Some ())"
  by (induction cs) (auto simp: context_zombie_pass_def)

lemma context_zombies_loop_asserts:
  "DEBUG b \<Longrightarrow> \<forall>d \<in> set ds. IsDefunct d \<Longrightarrow> \<not> IsDefunct c \<Longrightarrow>
     context_zombies_loop b (ds @ c # rest) =
       (map (\<lambda>d. ContextReset (ctx_ptr d)) ds
          @ [V8_ISOLATE_CTX (ctx_ptr c),
             ProcessExit (ctx_ptr c) (CONTEXT_GARBAGE_COLLECTED_BUT_PROCESS_STILL_ACTIVE b),
             AndroidLogAssert], None)"
  by (induction ds) auto

lemma exit_calls_Nil: "exit_calls [] = []"
  by (simp add: exit_calls_def)

lemma exit_calls_Cons:
  "exit_calls (e # tr) = (case e of ProcessExit c n \<Rightarrow> [(c, n)] | _ \<Rightarrow> []) @ exit_calls tr"
  by (simp add: exit_calls_def)

lemma exit_calls_append: "exit_calls (xs @ ys) = exit_calls xs @ exit_calls ys"
  by (simp add: exit_calls_def)

lemma exit_calls_value_resets: "exit_calls (map ValueReset vs) = []"
  by (induction vs) (simp_all add: exit_calls_Nil exit_calls_Cons)

lemma exit_calls_context_resets: "exit_calls (map (\<lambda>d. ContextReset (ctx_ptr d)) ds) = []"
  by (induction ds) (simp_all add: exit_calls_Nil exit_calls_Cons)

lemma exit_calls_releases: "exit_calls (map (\<lambda>c. ContextZombieRelease (ctx_ptr c)) cs) = []"
  by (induction cs) (simp_all add: exit_calls_Nil exit_calls_Cons)

lemma exit_calls_passes:
  "exit_calls (concat (map (context_zombie_pass b) cs)) =
     map (\<lambda>c. (ctx_ptr c, CONTEXT_GARBAGE_COLLECTED_BUT_PROCESS_STILL_ACTIVE b))
       (filter (\<lambda>c. \<not> IsDefunct c) cs)"
  by (induction cs)
    (simp_all add: exit_calls_Nil exit_calls_Cons exit_calls_append context_zombie_pass_def)

lemma FreeZombies_returns:
  assumes "\<not> DEBUG b \<or> (\<forall>c \<in> set (m_context_zombies g). IsDefunct c)"
  shows "FreeZombies b g =
     (Lock m_zombie_mutex # map ValueReset (m_value_zombies g)
        @ concat (map (context_zombie_pass b) (m_context_zombies g))
        @ map (\<lambda>c. ContextZombieRelease (ctx_ptr c)) (m_context_zombies g)
        @ [Unlock m_zombie_mutex],
      Some (g\<lparr>m_value_zombies := [], m_context_zombies := []\<rparr>))"
  using context_zombies_loop_returns [OF assms]
  by (simp add: FreeZombies_def value_zombies_loop_map)

lemma FreeZombies_asserts:
  assumes "DEBUG b" and "m_context_zombies g = ds @ c # rest"
    and "\<forall>d \<in> set ds. IsDefunct d" and "\<not> IsDefunct c"
  shows "FreeZombies b g =
     (Lock m_zombie_mutex # map ValueReset (m_value_zombies g)
        @ map (\<lambda>d. ContextReset (ctx_ptr d)) ds
        @ [V8_ISOLATE_CTX (ctx_ptr c),
           ProcessExit (ctx_ptr c) (CONTEXT_GARBAGE_COLLECTED_BUT_PROCESS_STILL_ACTIVE b),
           AndroidLogAssert],
      None)"
  using context_zombies_loop_asserts [OF assms(1,3,4), of rest] assms(2)
  by (simp add: FreeZombies_def value_zombies_loop_map)

lemma split_first_not_defunct:
  "\<exists>c \<in> set cs. \<not> IsDefunct c \<Longrightarrow>
     \<exists>ds c rest. cs = ds @ c # rest \<and> (\<forall>d \<in> set ds. IsDefunct d) \<and> \<not> IsDefunct c"
  using split_list_first_prop [of cs "\<lambda>c. \<not> IsDefunct c"] by auto

lemma filter_all_defunct: "\<forall>d \<in> set ds. IsDefunct d \<Longrightarrow> filter (\<lambda>c. \<not> IsDefunct c) ds = []"
  by (induction ds) simp_all

lemma FreeZombies_exit_calls:
  "exit_calls (fst (FreeZombies b g)) =
     map (\<lambda>c. (ctx_ptr c, CONTEXT_GARBAGE_COLLECTED_BUT_PROCESS_STILL_ACTIVE b))
       ((if DEBUG b then take 1 else id) (filter (\<lambda>c. \<not> IsDefunct c) (m_context_zombies g)))"
proof (cases "\<not> DEBUG b \<or> (\<forall>c \<in> set (m_context_zombies g). IsDefunct c)")
  case True
  have "DEBUG b \<Longrightarrow> filter (\<lambda>c. \<not> IsDefunct c) (m_context_zombies g) = []"
    using True by (simp add: filter_all_defunct)
  then show ?thesis
    using FreeZombies_returns [OF True]
    by (cases "DEBUG b")
      (simp_all add: exit_calls_Nil exit_calls_Cons exit_calls_append exit_calls_value_resets
        exit_calls_releases exit_calls_passes)
next
  case False
  then have d: "DEBUG b" and "\<exists>c \<in> set (m_context_zombies g). \<not> IsDefunct c"
    by auto
  then obtain ds c rest where
    s: "m_context_zombies g = ds @ c # rest" "\<forall>d \<in> set ds. IsDefunct d" "\<not> IsDefunct c"
    using split_first_not_defunct by blast
  show ?thesis
    using FreeZombies_asserts [OF d s] d s
    by (simp add: exit_calls_Nil exit_calls_Cons exit_calls_append exit_calls_value_resets
        exit_calls_context_resets filter_all_defunct)
qed

lemma FreeZombies_asserted:
  "snd (FreeZombies b g) = None \<longleftrightarrow> AndroidLogAssert \<in> set (fst (FreeZombies b g))"
proof (cases "\<not> DEBUG b \<or> (\<forall>c \<in> set (m_context_zombies g). IsDefunct c)")
  case True
  have "AndroidLogAssert \<notin> set (concat (map (context_zombie_pass b) cs))" for cs
    by (induction cs) (simp_all add: context_zombie_pass_def)
  then show ?thesis
    by (auto simp: FreeZombies_returns [OF True])
next
  case False
  then have d: "DEBUG b" and "\<exists>c \<in> set (m_context_zombies g). \<not> IsDefunct c"
    by auto
  then obtain ds c rest where
    s: "m_context_zombies g = ds @ c # rest" "\<forall>d \<in> set ds. IsDefunct d" "\<not> IsDefunct c"
    using split_first_not_defunct by blast
  show ?thesis
    by (simp add: FreeZombies_asserts [OF d s])
qed


lemma FreeZombies_asserts_iff:
  "snd (FreeZombies b g) = None \<longleftrightarrow> DEBUG b \<and> (\<exists>c \<in> set (m_context_zombies g). \<not> IsDefunct c)"
proof (cases "\<not> DEBUG b \<or> (\<forall>c \<in> set (m_context_zombies g). IsDefunct c)")
  case True
  from FreeZombies_returns [OF True] True show ?thesis
    by auto
next
  case False
  then have d: "DEBUG b" and e: "\<exists>c \<in> set (m_context_zombies g). \<not> IsDefunct c"
    by auto
  then obtain ds c rest where
    s: "m_context_zombies g = ds @ c # rest" "\<forall>d \<in> set ds. IsDefunct d" "\<not> IsDefunct c"
    using split_first_not_defunct by blast
  from FreeZombies_asserts [OF d s] d e show ?thesis
    by simp
qed

text \<open>
  Claim C2, as amended.  In a build without \<^verbatim>\<open>DEBUG\<close> (and in any build when every
  context zombie is defunct) the pass returns, and its trace is: the zombie mutex is taken,
  the value zombies are reset, then for each context zombie in turn nothing but the reset
  of the local pointer when the context is defunct, and otherwise exactly one call of
  \<^verbatim>\<open>process.exit\<close> with \<^verbatim>\<open>CONTEXT_GARBAGE_COLLECTED_BUT_PROCESS_STILL_ACTIVE\<close> before
  that reset; the references of the list are released after all of that, and the mutex is
  released last.  In a \<^verbatim>\<open>DEBUG\<close> build the first context zombie that is not defunct
  gets its one call of \<^verbatim>\<open>process.exit\<close>, then the assertion aborts the process:
  the zombies after it are not examined and no reference is released.  In every build the
  calls of \<^verbatim>\<open>process.exit\<close> are those for the context zombies that are not
  defunct, in list order, one each, cut after the first in a \<^verbatim>\<open>DEBUG\<close> build.
\<close>

theorem FreeZombies_forced_exit:
  "(\<not> DEBUG b \<or> (\<forall>c \<in> set (m_context_zombies g). IsDefunct c) \<longrightarrow>
      FreeZombies b g =
        (Lock m_zombie_mutex # map ValueReset (m_value_zombies g)
           @ concat (map (context_zombie_pass b) (m_context_zombies g))
           @ map (\<lambda>c. ContextZombieRelease (ctx_ptr c)) (m_context_zombies g)
           @ [Unlock m_zombie_mutex],
         Some (g\<lparr>m_value_zombies := [], m_context_zombies := []\<rparr>)))
   \<and> (DEBUG b \<longrightarrow>
        (\<forall>ds c rest.
           m_context_zombies g = ds @ c # rest \<and> (\<forall>d \<in> set ds. IsDefunct d) \<and> \<not> IsDefunct c \<longrightarrow>
           FreeZombies b g =
             (Lock m_zombie_mutex # map ValueReset (m_value_zombies g)
                @ map (\<lambda>d. ContextReset (ctx_ptr d)) ds
                @ [V8_ISOLATE_CTX (ctx_ptr c),
                   ProcessExit (ctx_ptr c) (CONTEXT_GARBAGE_COLLECTED_BUT_PROCESS_STILL_ACTIVE b),
                   AndroidLogAssert],
              None)))
   \<and> exit_calls (fst (FreeZombies b g)) =
       map (\<lambda>c. (ctx_ptr c, CONTEXT_GARBAGE_COLLECTED_BUT_PROCESS_STILL_ACTIVE b))
         ((if DEBUG b then take 1 else id) (filter (\<lambda>c. \<not> IsDefunct c) (m_context_zombies g)))"
  using FreeZombies_returns [of b g] FreeZombies_asserts [of b g] FreeZombies_exit_calls [of b g]
  by blast

theorem FreeZombies_forced_exit_witness:
  "FreeZombies release_build example_group =
     ([Lock m_zombie_mutex, ValueReset 41, ValueReset 42, ContextReset 51,
       V8_ISOLATE_CTX 52, ProcessExit 52 (- 222), V8_UNLOCK 52, ContextReset 52,
       V8_ISOLATE_CTX 53, ProcessExit 53 (- 222), V8_UNLOCK 53, ContextReset 53,
       ContextZombieRelease 51, ContextZombieRelease 52, ContextZombieRelease 53,
       Unlock m_zombie_mutex],
      Some (example_group\<lparr>m_value_zombies := [], m_context_zombies := []\<rparr>))
   \<and> exit_calls (fst (FreeZombies release_build example_group)) = [(52, - 222), (53, - 222)]
   \<and> FreeZombies debug_build example_group =
     ([Lock m_zombie_mutex, ValueReset 41, ValueReset 42, ContextReset 51,
       V8_ISOLATE_CTX 52, ProcessExit 52 (- 222), AndroidLogAssert], None)"
proof -
  have r: "\<not> DEBUG release_build" and d: "DEBUG debug_build"
    by (simp_all add: release_build_def debug_build_def)
  have z: "m_context_zombies example_group =
      [\<lparr>ctx_ptr = 51, IsDefunct = True\<rparr>] @ \<lparr>ctx_ptr = 52, IsDefunct = False\<rparr>
        # [\<lparr>ctx_ptr = 53, IsDefunct = False\<rparr>]"
    by (simp add: example_group_def)
  from FreeZombies_forced_exit [of release_build example_group] r
  have "FreeZombies release_build example_group =
     ([Lock m_zombie_mutex, ValueReset 41, ValueReset 42, ContextReset 51,
       V8_ISOLATE_CTX 52, ProcessExit 52 (- 222), V8_UNLOCK 52, ContextReset 52,
       V8_ISOLATE_CTX 53, ProcessExit 53 (- 222), V8_UNLOCK 53, ContextReset 53,
       ContextZombieRelease 51, ContextZombieRelease 52, ContextZombieRelease 53,
       Unlock m_zombie_mutex],
      Some (example_group\<lparr>m_value_zombies := [], m_context_zombies := []\<rparr>))"
    and "exit_calls (fst (FreeZombies release_build example_group)) = [(52, - 222), (53, - 222)]"
    by (simp_all add: example_group_def release_build_def context_zombie_pass_def
        exit_calls_def)
  moreover
  note FreeZombies_forced_exit [of debug_build example_group, THEN conjunct2, THEN conjunct1,
      rule_format, OF d, of "[\<lparr>ctx_ptr = 51, IsDefunct = True\<rparr>]"
      "\<lparr>ctx_ptr = 52, IsDefunct = False\<rparr>" "[\<lparr>ctx_ptr = 53, IsDefunct = False\<rparr>]"]
  with z have "FreeZombies debug_build example_group =
     ([Lock m_zombie_mutex, ValueReset 41, ValueReset 42, ContextReset 51,
       V8_ISOLATE_CTX 52, ProcessExit 52 (- 222), AndroidLogAssert], None)"
    by (simp add: example_group_def debug_build_def)
  ultimately show ?thesis
    by simp
qed

text \<open>
  The claim as it stands fails in a \<^verbatim>\<open>DEBUG\<close> build: in the example group the context
  53 is a zombie that is not defunct, and the pass calls \<^verbatim>\<open>process.exit\<close> for 52 only;
  it ends in the assertion and releases no reference.
\<close>

theorem FreeZombies_debug_counterexample:
  "\<lparr>ctx_ptr = 53, IsDefunct = False\<rparr> \<in> set (m_context_zombies example_group)
   \<and> exit_calls (fst (FreeZombies debug_build example_group)) = [(52, - 222)]
   \<and> ContextZombieRelease 53 \<notin> set (fst (FreeZombies debug_build example_group))
   \<and> snd (FreeZombies debug_build example_group) = None"
  by (simp add: FreeZombies_def example_group_def debug_build_def exit_calls_def)

subsection \<open>The runtime count\<close>

lemma init_v8_count: "s_init_count (snd (init_v8 p)) = s_init_count p + 1"
  by (simp add: init_v8_def)

lemma init_v8_initializes: "V8Initialize \<in> set (fst (init_v8 p)) \<longleftrightarrow> s_init_count p = 0"
  by (simp add: init_v8_def)

lemma init_v8_no_dispose: "V8Dispose \<notin> set (fst (init_v8 p))"
  by (simp add: init_v8_def)

lemma dispose_v8_count: "s_init_count (snd (dispose_v8 p)) = s_init_count p"
  by (simp add: dispose_v8_def)

lemma dispose_v8_shuts_down: "V8Dispose \<in> set (fst (dispose_v8 p)) \<longleftrightarrow> s_init_count p = 0"
  by (simp add: dispose_v8_def)

lemma dispose_v8_no_init: "V8Initialize \<notin> set (fst (dispose_v8 p))"
  by (simp add: dispose_v8_def)

lemma dispose_v8_positive: "s_init_count p \<noteq> 0 \<Longrightarrow> dispose_v8 p = ([Lock s_mutex, Unlock s_mutex], p)"
  by (simp add: dispose_v8_def)

lemma dispose_v8_idem: "snd (dispose_v8 (snd (dispose_v8 p))) = snd (dispose_v8 p)"
  by (simp add: dispose_v8_def)

lemma count_nonzero:
  fixes k :: nat
  assumes "0 < k" and "k < 2 ^ 32"
  shows "(of_nat k :: 32 word) \<noteq> 0"
  using assms of_nat_neq_0 [of k, where 'a = 32] by simp

lemma v8_calls_positive:
  "0 < k \<Longrightarrow> k + length cs < 2 ^ 32 \<Longrightarrow> s_init_count p = of_nat k \<Longrightarrow>
     V8Initialize \<notin> set (fst (v8_calls cs p))
     \<and> V8Dispose \<notin> set (fst (v8_calls cs p))
     \<and> s_init_count (snd (v8_calls cs p)) = of_nat (k + count_list cs Call_init_v8)"
proof (induction cs arbitrary: k p)
  case Nil
  then show ?case by simp
next
  case (Cons c cs)
  from Cons.prems have nz: "s_init_count p \<noteq> 0"
    using count_nonzero [of k] by simp
  show ?case
  proof (cases c)
    case Call_init_v8
    have "s_init_count (snd (init_v8 p)) = of_nat (Suc k)"
      using Cons.prems by (simp add: init_v8_count)
    from Cons.IH [OF _ _ this] Cons.prems nz Call_init_v8 show ?thesis
      by (simp add: split_beta init_v8_initializes init_v8_no_dispose)
  next
    case Call_dispose_v8
    have "s_init_count (snd (dispose_v8 p)) = of_nat k"
      using Cons.prems by (simp add: dispose_v8_count)
    from Cons.IH [OF _ _ this] Cons.prems nz Call_dispose_v8 show ?thesis
      by (simp add: split_beta dispose_v8_shuts_down dispose_v8_no_init)
  qed
qed

text \<open>
  Claim C6, as amended.  \<^verbatim>\<open>init_v8\<close> increments the process-wide count and initializes
  the runtime exactly when the count was zero.  \<^verbatim>\<open>dispose_v8\<close> does not decrement the
  count: it leaves it as it is and shuts the runtime down exactly when the count is zero,
  so it is idempotent on the state, and once the count is not zero it does nothing but
  take and release the mutex.  After the first \<^verbatim>\<open>init_v8\<close> of a process, no later
  call of either initializes or shuts down the runtime, and the count is the number of
  \<^verbatim>\<open>init_v8\<close> calls made (for fewer than \<open>2 ^ 32\<close> calls, where the 32-bit count does
  not wrap).
\<close>

theorem v8_lifecycle:
  "s_init_count (snd (init_v8 p)) = s_init_count p + 1
   \<and> (V8Initialize \<in> set (fst (init_v8 p)) \<longleftrightarrow> s_init_count p = 0)
   \<and> s_init_count (snd (dispose_v8 p)) = s_init_count p
   \<and> (V8Dispose \<in> set (fst (dispose_v8 p)) \<longleftrightarrow> s_init_count p = 0)
   \<and> snd (dispose_v8 (snd (dispose_v8 p))) = snd (dispose_v8 p)
   \<and> (s_init_count p \<noteq> 0 \<longrightarrow> dispose_v8 p = ([Lock s_mutex, Unlock s_mutex], p))
   \<and> (\<forall>cs. s_init_count p = 0 \<and> length cs < 2 ^ 32 - 1 \<longrightarrow>
         V8Initialize \<notin> set (fst (v8_calls cs (snd (init_v8 p))))
         \<and> V8Dispose \<notin> set (fst (v8_calls cs (snd (init_v8 p))))
         \<and> s_init_count (snd (v8_calls cs (snd (init_v8 p)))) = of_nat (1 + count_list cs Call_init_v8))"
proof -
  have "\<forall>cs. s_init_count p = 0 \<and> length cs < 2 ^ 32 - 1 \<longrightarrow>
         V8Initialize \<notin> set (fst (v8_calls cs (snd (init_v8 p))))
         \<and> V8Dispose \<notin> set (fst (v8_calls cs (snd (init_v8 p))))
         \<and> s_init_count (snd (v8_calls cs (snd (init_v8 p)))) = of_nat (1 + count_list cs Call_init_v8)"
  proof (intro allI impI)
    fix cs :: "v8_call list"
    assume a: "s_init_count p = 0 \<and> length cs < 2 ^ 32 - 1"
    then have "s_init_count (snd (init_v8 p)) = of_nat 1" and "1 + length cs < 2 ^ 32"
      by (simp_all add: init_v8_count)
    with v8_calls_positive [of 1 cs "snd (init_v8 p)"]
    show "V8Initialize \<notin> set (fst (v8_calls cs (snd (init_v8 p))))
         \<and> V8Dispose \<notin> set (fst (v8_calls cs (snd (init_v8 p))))
         \<and> s_init_count (snd (v8_calls cs (snd (init_v8 p)))) = of_nat (1 + count_list cs Call_init_v8)"
      by simp
  qed
  then show ?thesis
    using init_v8_count [of p] init_v8_initializes [of p] dispose_v8_count [of p]
      dispose_v8_shuts_down [of p] dispose_v8_idem [of p] dispose_v8_positive [of p]
    by blast
qed

theorem v8_lifecycle_witness:
  "s_init_count fresh_process = 0
   \<and> V8Initialize \<in> set (fst (init_v8 fresh_process))
   \<and> dispose_v8 example_process = ([Lock s_mutex, Unlock s_mutex], example_process)
   \<and> V8Initialize \<notin> set (fst (v8_calls [Call_dispose_v8, Call_init_v8, Call_dispose_v8]
          (snd (init_v8 fresh_process))))
   \<and> V8Dispose \<notin> set (fst (v8_calls [Call_dispose_v8, Call_init_v8, Call_dispose_v8]
          (snd (init_v8 fresh_process))))
   \<and> s_init_count (snd (v8_calls [Call_dispose_v8, Call_init_v8, Call_dispose_v8]
          (snd (init_v8 fresh_process)))) = 2"
proof -
  have z: "s_init_count fresh_process = 0" and nz: "s_init_count example_process \<noteq> 0"
    by (simp_all add: fresh_process_def example_process_def)
  note t = v8_lifecycle [of fresh_process]
  note u = v8_lifecycle [of example_process]
  from t z have "V8Initialize \<in> set (fst (init_v8 fresh_process))"
    by blast
  moreover from u nz have "dispose_v8 example_process = ([Lock s_mutex, Unlock s_mutex], example_process)"
    by blast
  moreover
  from t have "s_init_count fresh_process = 0
        \<and> length [Call_dispose_v8, Call_init_v8, Call_dispose_v8] < 2 ^ 32 - 1 \<longrightarrow>
      V8Initialize \<notin> set (fst (v8_calls [Call_dispose_v8, Call_init_v8, Call_dispose_v8]
          (snd (init_v8 fresh_process))))
   \<and> V8Dispose \<notin> set (fst (v8_calls [Call_dispose_v8, Call_init_v8, Call_dispose_v8]
          (snd (init_v8 fresh_process))))
   \<and> s_init_count (snd (v8_calls [Call_dispose_v8, Call_init_v8, Call_dispose_v8]
          (snd (init_v8 fresh_process)))) =
       of_nat (1 + count_list [Call_dispose_v8, Call_init_v8, Call_dispose_v8] Call_init_v8)"
    by blast
  with z have "V8Initialize \<notin> set (fst (v8_calls [Call_dispose_v8, Call_init_v8, Call_dispose_v8]
          (snd (init_v8 fresh_process))))
   \<and> V8Dispose \<notin> set (fst (v8_calls [Call_dispose_v8, Call_init_v8, Call_dispose_v8]
          (snd (init_v8 fresh_process))))
   \<and> s_init_count (snd (v8_calls [Call_dispose_v8, Call_init_v8, Call_dispose_v8]
          (snd (init_v8 fresh_process)))) = 2"
    by simp
  ultimately show ?thesis
    using z by blast
qed

text \<open>
  The claim as it stands fails: after one \<^verbatim>\<open>init_v8\<close> in a fresh process, a
  \<^verbatim>\<open>dispose_v8\<close> leaves the count at 1 and does not shut the runtime down.
\<close>

theorem dispose_v8_counterexample:
  "s_init_count (snd (init_v8 fresh_process)) = 1
   \<and> s_init_count (snd (dispose_v8 (snd (init_v8 fresh_process)))) = 1
   \<and> V8Dispose \<notin> set (fst (dispose_v8 (snd (init_v8 fresh_process))))"
  by (simp add: init_v8_def dispose_v8_def fresh_process_def)


subsection \<open>Dispose\<close>

lemma executed_managed_values: "executed (managed_values_loop ws) = []"
  by (induction ws) (simp_all add: executed_Nil executed_Cons split: option.splits)

lemma executed_managed_contexts: "executed (managed_contexts_loop ws) = []"
  by (induction ws) (simp_all add: executed_Nil executed_Cons split: option.splits)

lemma executed_dispose_v8: "executed (fst (dispose_v8 p)) = []"
  by (simp add: dispose_v8_def executed_Nil executed_Cons)

lemma Dispose_defunct: "m_isDefunct (snd s) \<Longrightarrow> Dispose b owned s = ([], Returned s)"
  by (cases s) (simp add: Dispose_def)

lemma destructor_defunct: "m_isDefunct (snd s) \<Longrightarrow> destructor b s = ([], Returned s)"
  by (simp add: destructor_def Dispose_defunct)

text \<open>Without an owner, on a group that is not defunct: \<^verbatim>\<open>Dispose\<close> throws before it
  does anything, and the destructor ends the process.\<close>

lemma Dispose_unowned:
  "\<not> m_isDefunct g \<Longrightarrow> Dispose b False (p, g) = ([], Threw bad_weak_ptr)"
  by (simp add: Dispose_def)

lemma destructor_terminates:
  "\<not> m_isDefunct g \<Longrightarrow> destructor b (p, g) = ([StdTerminate], Aborted)"
  by (simp add: destructor_def Dispose_unowned)

lemma Dispose_sets_defunct: "Dispose b owned s = (tr, Returned s') \<Longrightarrow> m_isDefunct (snd s')"
  by (cases s)
    (auto simp: Dispose_def dest: FreeZombies_isDefunct
      split: if_splits prod.splits option.splits)

lemma Dispose_trace_executed: "executed (fst (Dispose b owned s)) = []"
proof (cases s)
  case (Pair p g)
  let ?g = "g\<lparr>m_runnables := [], m_isDefunct := True, m_managedValues := [],
    m_managedContexts := []\<rparr>"
  obtain ztr r where z: "FreeZombies b ?g = (ztr, r)"
    by (cases "FreeZombies b ?g")
  from executed_FreeZombies [of b ?g] z have e: "executed ztr = []"
    by simp
  show ?thesis
  proof (cases "m_isDefunct g")
    case True
    with Pair show ?thesis by (simp add: Dispose_def executed_Nil)
  next
    case False
    with Pair z e show ?thesis
      by (cases r; cases owned)
        (simp_all add: Dispose_def executed_Nil executed_Cons executed_append
          executed_managed_values executed_managed_contexts executed_dispose_v8
          split_beta)
  qed
qed

lemma Dispose_example:
  "Dispose release_build True (example_process, example_group) =
    ([RunnablesClear, RemoveGCPrologueCallback 7, JSValueDispose 61,
   JSValueDispose 62, JSContextDispose 71, Store_isDefunct,
   Lock m_zombie_mutex, ValueReset 41, ValueReset 42, ContextReset 51,
   V8_ISOLATE_CTX 52, ProcessExit 52 (- 222), V8_UNLOCK 52, ContextReset 52,
   V8_ISOLATE_CTX 53, ProcessExit 53 (- 222), V8_UNLOCK 53, ContextReset 53,
   ContextZombieRelease 51, ContextZombieRelease 52,
   ContextZombieRelease 53, Unlock m_zombie_mutex, Lock s_mutex,
   IsolateMapErase 7, Unlock s_mutex, IsolateDispose 7, DeleteStartupData],
     Returned (example_process\<lparr>s_isolate_map := Map.empty\<rparr>,
           example_group\<lparr>m_runnables := [], m_isDefunct := True, m_managedValues := [],
             m_managedContexts := [], m_value_zombies := [], m_context_zombies := []\<rparr>))"
  by (simp add: Dispose_def FreeZombies_def example_group_def example_process_def release_build_def)

text \<open>
  Claim C4.  A second \<^verbatim>\<open>Dispose\<close> is a no-op.  On a group whose defunct flag is set,
  \<^verbatim>\<open>Dispose\<close> (whether a \<^verbatim>\<open>shared_ptr\<close> owns the group or not, and also the call
  the destructor makes) performs no effect at all (the empty trace: the isolate is not
  disposed again, no registry entry is erased again) and changes no state.  When a call
  of \<^verbatim>\<open>Dispose\<close> has returned, the flag is set, so a further \<^verbatim>\<open>Dispose\<close> on the state
  it left is such a no-op.
\<close>

theorem Dispose_twice:
  "(m_isDefunct (snd s) \<longrightarrow>
      Dispose b owned s = ([], Returned s) \<and> destructor b s = ([], Returned s))
   \<and> (\<forall>tr s'. Dispose b owned s = (tr, Returned s') \<longrightarrow>
         m_isDefunct (snd s')
         \<and> (\<forall>owned'. Dispose b owned' s' = ([], Returned s'))
         \<and> destructor b s' = ([], Returned s'))"
  by (simp add: destructor_defunct Dispose_defunct Dispose_sets_defunct)

theorem Dispose_twice_witness:
  "\<not> m_isDefunct example_group
   \<and> Dispose release_build True (example_process, example_group) \<noteq>
       ([], Returned (example_process, example_group))
   \<and> m_isDefunct (example_group\<lparr>m_runnables := [], m_isDefunct := True, m_managedValues := [],
       m_managedContexts := [], m_value_zombies := [], m_context_zombies := []\<rparr>)
   \<and> Dispose release_build True
       (example_process\<lparr>s_isolate_map := Map.empty\<rparr>,
        example_group\<lparr>m_runnables := [], m_isDefunct := True, m_managedValues := [],
          m_managedContexts := [], m_value_zombies := [], m_context_zombies := []\<rparr>)
     = ([], Returned (example_process\<lparr>s_isolate_map := Map.empty\<rparr>,
          example_group\<lparr>m_runnables := [], m_isDefunct := True, m_managedValues := [],
            m_managedContexts := [], m_value_zombies := [], m_context_zombies := []\<rparr>))
   \<and> destructor release_build
       (example_process\<lparr>s_isolate_map := Map.empty\<rparr>,
        example_group\<lparr>m_runnables := [], m_isDefunct := True, m_managedValues := [],
          m_managedContexts := [], m_value_zombies := [], m_context_zombies := []\<rparr>)
     = ([], Returned (example_process\<lparr>s_isolate_map := Map.empty\<rparr>,
          example_group\<lparr>m_runnables := [], m_isDefunct := True, m_managedValues := [],
            m_managedContexts := [], m_value_zombies := [], m_context_zombies := []\<rparr>))"
proof -
  have "\<not> m_isDefunct example_group"
    by (simp add: example_group_def)
  moreover have "Dispose release_build True (example_process, example_group) \<noteq>
       ([], Returned (example_process, example_group))"
    by (simp add: Dispose_example)
  moreover
  from Dispose_twice [of "(example_process, example_group)" release_build True]
  have "m_isDefunct (snd (example_process\<lparr>s_isolate_map := Map.empty\<rparr>,
        example_group\<lparr>m_runnables := [], m_isDefunct := True, m_managedValues := [],
          m_managedContexts := [], m_value_zombies := [], m_context_zombies := []\<rparr>))
     \<and> Dispose release_build True
       (example_process\<lparr>s_isolate_map := Map.empty\<rparr>,
        example_group\<lparr>m_runnables := [], m_isDefunct := True, m_managedValues := [],
          m_managedContexts := [], m_value_zombies := [], m_context_zombies := []\<rparr>)
     = ([], Returned (example_process\<lparr>s_isolate_map := Map.empty\<rparr>,
          example_group\<lparr>m_runnables := [], m_isDefunct := True, m_managedValues := [],
            m_managedContexts := [], m_value_zombies := [], m_context_zombies := []\<rparr>))
     \<and> destructor release_build
       (example_process\<lparr>s_isolate_map := Map.empty\<rparr>,
        example_group\<lparr>m_runnables := [], m_isDefunct := True, m_managedValues := [],
          m_managedContexts := [], m_value_zombies := [], m_context_zombies := []\<rparr>)
     = ([], Returned (example_process\<lparr>s_isolate_map := Map.empty\<rparr>,
          example_group\<lparr>m_runnables := [], m_isDefunct := True, m_managedValues := [],
            m_managedContexts := [], m_value_zombies := [], m_context_zombies := []\<rparr>))"
    using Dispose_example by blast
  ultimately show ?thesis
    by simp
qed

subsection \<open>The dispatch callback\<close>

lemma drain_returns:
  "drain q = (tr, Some q') \<Longrightarrow>
     q' = [] \<and>
     (\<exists>rs. tr = concat (map task_turn rs) \<and> rs = q @ concat (map arrivals rs)
        \<and> (\<forall>r \<in> set rs. snd (run_Runnable r) \<noteq> None))"
proof (induction q arbitrary: tr q' rule: drain.induct)
  case 1
  then have "tr = concat (map task_turn [])" and "q' = []"
    by simp_all
  then show ?case
    by (intro conjI exI [of _ "[]"]) simp_all
next
  case (2 r rs)
  obtain t u where run: "run_Runnable r = (t, u)"
    by (cases "run_Runnable r")
  with "2.prems" obtain x where u: "u = Some x"
    by (cases u) simp_all
  obtain tr' res where d: "drain (tl ((r # rs) @ arrivals r)) = (tr', res)"
    by (cases "drain (tl ((r # rs) @ arrivals r))")
  from "2.prems" run u d have tr: "tr = task_turn r @ tr'" and res: "res = Some q'"
    by simp_all
  from "2.IH" [OF run [symmetric] u d [unfolded res]] obtain rs' where
    q': "q' = []" and tr': "tr' = concat (map task_turn rs')"
    and rs': "rs' = tl ((r # rs) @ arrivals r) @ concat (map arrivals rs')"
    and ok: "\<forall>r \<in> set rs'. snd (run_Runnable r) \<noteq> None"
    by blast
  have "tr = concat (map task_turn (r # rs'))"
    using tr tr' by simp
  moreover have "r # rs' = (r # rs) @ concat (map arrivals (r # rs'))"
    using rs' by simp
  moreover have "\<forall>x \<in> set (r # rs'). snd (run_Runnable x) \<noteq> None"
    using ok run u by simp
  ultimately show ?case
    using q' by blast
qed


lemma executed_find_inContextCallback:
  "executed (fst (find_inContextCallback st r n c supers)) = []"
proof (induction supers arbitrary: n c)
  case Nil
  then show ?case by (simp add: executed_Nil executed_Cons executed_append)
next
  case (Cons s ss)
  from Cons [of "Suc n" s] show ?case
    by (cases "find_inContextCallback st r (Suc n) s ss")
      (simp add: executed_Nil executed_Cons executed_append)
qed

lemma executed_run_Runnable:
  "executed (fst (run_Runnable r)) = (if snd (run_Runnable r) = None then [] else [rid r])"
proof (cases "c_runnable r")
  case (Some f)
  then show ?thesis by (simp add: run_Runnable_def executed_Nil executed_Cons)
next
  case None
  obtain t u where f: "find_inContextCallback (jvm_GetEnv r) (rid r) 0 (thiz_class r) (thiz_supers r) = (t, u)"
    by (cases "find_inContextCallback (jvm_GetEnv r) (rid r) 0 (thiz_class r) (thiz_supers r)")
  from executed_find_inContextCallback [of "jvm_GetEnv r" "rid r" 0 "thiz_class r" "thiz_supers r"] f
  have "executed t = []" by simp
  with None f show ?thesis
    by (cases u) (simp_all add: run_Runnable_def executed_Nil executed_Cons executed_append)
qed

lemma scheduled_Nil: "scheduled [] = []"
  by (simp add: scheduled_def)

lemma scheduled_Cons:
  "scheduled (e # tr) = (case e of Scheduled r \<Rightarrow> [r] | _ \<Rightarrow> []) @ scheduled tr"
  by (simp add: scheduled_def)

lemma scheduled_append: "scheduled (xs @ ys) = scheduled xs @ scheduled ys"
  by (simp add: scheduled_def)

lemma scheduled_find_inContextCallback:
  "scheduled (fst (find_inContextCallback st r n c supers)) = []"
proof (induction supers arbitrary: n c)
  case Nil
  then show ?case by (simp add: scheduled_Nil scheduled_Cons scheduled_append)
next
  case (Cons s ss)
  from Cons [of "Suc n" s] show ?case
    by (cases "find_inContextCallback st r (Suc n) s ss")
      (simp add: scheduled_Nil scheduled_Cons scheduled_append)
qed

lemma scheduled_run_Runnable: "scheduled (fst (run_Runnable r)) = []"
proof (cases "c_runnable r")
  case (Some f)
  then show ?thesis by (simp add: run_Runnable_def scheduled_Nil scheduled_Cons)
next
  case None
  obtain t u where f: "find_inContextCallback (jvm_GetEnv r) (rid r) 0 (thiz_class r) (thiz_supers r) = (t, u)"
    by (cases "find_inContextCallback (jvm_GetEnv r) (rid r) 0 (thiz_class r) (thiz_supers r)")
  from scheduled_find_inContextCallback [of "jvm_GetEnv r" "rid r" 0 "thiz_class r" "thiz_supers r"] f
  have "scheduled t = []" by simp
  with None f show ?thesis
    by (cases u) (simp_all add: run_Runnable_def scheduled_Nil scheduled_Cons scheduled_append)
qed

lemma scheduled_arrivals: "scheduled (map (\<lambda>a. Scheduled (rid a)) as) = map rid as"
  by (induction as) (simp_all add: scheduled_Nil scheduled_Cons)

lemma executed_arrivals: "executed (map (\<lambda>a. Scheduled (rid a)) as) = []"
  by (induction as) (simp_all add: executed_Nil executed_Cons)

lemma executed_task_turn:
  "snd (run_Runnable r) \<noteq> None \<Longrightarrow> executed (task_turn r) = [rid r]"
  by (simp add: task_turn_def executed_Nil executed_Cons executed_append executed_run_Runnable
      executed_arrivals)

lemma scheduled_task_turn: "scheduled (task_turn r) = map rid (arrivals r)"
  by (simp add: task_turn_def scheduled_Nil scheduled_Cons scheduled_append
      scheduled_run_Runnable scheduled_arrivals)

lemma executed_turns:
  "\<forall>r \<in> set rs. snd (run_Runnable r) \<noteq> None \<Longrightarrow>
     executed (concat (map task_turn rs)) = map rid rs"
  by (induction rs) (simp_all add: executed_Nil executed_append executed_task_turn)

lemma scheduled_turns:
  "scheduled (concat (map task_turn rs)) = map rid (concat (map arrivals rs))"
  by (induction rs) (simp_all add: scheduled_Nil scheduled_append scheduled_task_turn)

lemma drain_asserts:
  "drain q = (tr, None) \<Longrightarrow>
     \<exists>rs r. tr = concat (map task_turn rs) @ Unlock m_async_mutex # fst (run_Runnable r)
        \<and> snd (run_Runnable r) = None
        \<and> (\<forall>x \<in> set rs. snd (run_Runnable x) \<noteq> None)
        \<and> prefix (rs @ [r]) (q @ concat (map arrivals rs))"
proof (induction q arbitrary: tr rule: drain.induct)
  case 1
  then show ?case by simp
next
  case (2 r rs)
  obtain t u where run: "run_Runnable r = (t, u)"
    by (cases "run_Runnable r")
  show ?case
  proof (cases u)
    case None
    with "2.prems" run have "tr = concat (map task_turn []) @ Unlock m_async_mutex # fst (run_Runnable r)"
      by simp
    moreover have "snd (run_Runnable r) = None"
      using run None by simp
    moreover have "prefix ([] @ [r]) ((r # rs) @ concat (map arrivals []))"
      by simp
    ultimately show ?thesis
      by (intro exI [of _ "[]"] exI [of _ r]) simp
  next
    case (Some x)
    obtain tr' res where d: "drain (tl ((r # rs) @ arrivals r)) = (tr', res)"
      by (cases "drain (tl ((r # rs) @ arrivals r))")
    from "2.prems" run Some d have tr: "tr = task_turn r @ tr'" and res: "res = None"
      by simp_all
    from "2.IH" [OF run [symmetric] Some d [unfolded res]] obtain rs' r' where
      tr': "tr' = concat (map task_turn rs') @ Unlock m_async_mutex # fst (run_Runnable r')"
      and fail: "snd (run_Runnable r') = None"
      and ok: "\<forall>x \<in> set rs'. snd (run_Runnable x) \<noteq> None"
      and pre: "prefix (rs' @ [r']) (tl ((r # rs) @ arrivals r) @ concat (map arrivals rs'))"
      by blast
    have "tr = concat (map task_turn (r # rs')) @ Unlock m_async_mutex # fst (run_Runnable r')"
      using tr tr' by simp
    moreover have "\<forall>x \<in> set (r # rs'). snd (run_Runnable x) \<noteq> None"
      using ok run Some by simp
    moreover have "prefix ((r # rs') @ [r']) ((r # rs) @ concat (map arrivals (r # rs')))"
      using pre by simp
    ultimately show ?thesis
      using fail by blast
  qed
qed


lemma drain_fifo:
  "drain q = (tr, res) \<Longrightarrow>
     prefix (executed tr) (map rid q @ scheduled tr)
     \<and> (res \<noteq> None \<longrightarrow> executed tr = map rid q @ scheduled tr)"
proof (cases res)
  case None
  assume "drain q = (tr, res)"
  with None obtain rs r where
    tr: "tr = concat (map task_turn rs) @ Unlock m_async_mutex # fst (run_Runnable r)"
    and fail: "snd (run_Runnable r) = None"
    and ok: "\<forall>x \<in> set rs. snd (run_Runnable x) \<noteq> None"
    and pre: "prefix (rs @ [r]) (q @ concat (map arrivals rs))"
    using drain_asserts by blast
  have e: "executed tr = map rid rs"
    using tr fail ok
    by (simp add: executed_append executed_Cons executed_turns executed_run_Runnable)
  have s: "scheduled tr = map rid (concat (map arrivals rs))"
    using tr by (simp add: scheduled_append scheduled_Cons scheduled_turns scheduled_run_Runnable)
  from pre have "prefix rs (q @ concat (map arrivals rs))"
    using append_prefixD by blast
  then have "prefix (map rid rs) (map rid (q @ concat (map arrivals rs)))"
    by (rule map_mono_prefix)
  with e s None show ?thesis
    by simp
next
  case (Some q')
  assume "drain q = (tr, res)"
  with Some obtain rs where
    tr: "tr = concat (map task_turn rs)" and rs: "rs = q @ concat (map arrivals rs)"
    and ok: "\<forall>r \<in> set rs. snd (run_Runnable r) \<noteq> None"
    using drain_returns by blast
  have "executed tr = map rid rs"
    using tr ok by (simp add: executed_turns)
  also have "\<dots> = map rid (q @ concat (map arrivals rs))"
    using rs by simp
  also have "\<dots> = map rid q @ scheduled tr"
    using tr by (simp add: scheduled_turns)
  finally show ?thesis
    by simp
qed

lemma scheduled_value_zombies: "scheduled (value_zombies_loop vs) = []"
  by (induction vs) (simp_all add: scheduled_Nil scheduled_Cons)

lemma scheduled_context_zombies: "scheduled (fst (context_zombies_loop b cs)) = []"
  by (induction cs) (auto simp: scheduled_Nil scheduled_Cons split: prod.splits)

lemma scheduled_releases: "scheduled (map (\<lambda>c. ContextZombieRelease (ctx_ptr c)) cs) = []"
  by (induction cs) (simp_all add: scheduled_Nil scheduled_Cons)

lemma scheduled_FreeZombies: "scheduled (fst (FreeZombies b g)) = []"
proof -
  obtain ctr r where c: "context_zombies_loop b (m_context_zombies g) = (ctr, r)"
    by (cases "context_zombies_loop b (m_context_zombies g)")
  from scheduled_context_zombies [of b "m_context_zombies g"] c have "scheduled ctr = []"
    by simp
  with c show ?thesis
    by (cases r)
      (simp_all add: FreeZombies_def scheduled_Nil scheduled_Cons scheduled_append
        scheduled_value_zombies scheduled_releases)
qed

lemma FreeZombies_state:
  "FreeZombies b g = (ztr, Some g1) \<Longrightarrow> g1 = g\<lparr>m_value_zombies := [], m_context_zombies := []\<rparr>"
  by (auto simp: FreeZombies_def split: prod.splits option.splits)

lemma callback_asserts_in_zombies:
  "FreeZombies b g = (ztr, None) \<Longrightarrow> callback b h g = (DeleteContextGroupData h # ztr, None)"
  by (simp add: callback_def)

lemma callback_after_zombies:
  "FreeZombies b g = (ztr, Some g1) \<Longrightarrow> drain (m_runnables g) = (dtr, res) \<Longrightarrow>
     callback b h g =
       (case res of
          None \<Rightarrow> (DeleteContextGroupData h # ztr @ Lock m_async_mutex # dtr, None)
        | Some q \<Rightarrow>
            (DeleteContextGroupData h # ztr @ Lock m_async_mutex # dtr
               @ [UvClose h, Store_async_handle_null, Unlock m_async_mutex],
             Some (g1\<lparr>m_runnables := q, m_async_handle := None\<rparr>)))"
  using FreeZombies_runnables [of b g ztr g1]
  by (cases res) (simp_all add: callback_def)

lemma callback_fifo:
  "callback b h g = (tr, res) \<Longrightarrow>
     prefix (executed tr) (map rid (m_runnables g) @ scheduled tr)"
proof -
  assume c: "callback b h g = (tr, res)"
  obtain ztr zr where z: "FreeZombies b g = (ztr, zr)"
    by (cases "FreeZombies b g")
  from executed_FreeZombies [of b g] scheduled_FreeZombies [of b g] z
  have ze: "executed ztr = []" "scheduled ztr = []"
    by simp_all
  show ?thesis
  proof (cases zr)
    case None
    with z c ze show ?thesis
      by (auto simp: callback_asserts_in_zombies executed_Cons executed_Nil)
  next
    case (Some g1)
    obtain dtr dres where d: "drain (m_runnables g) = (dtr, dres)"
      by (cases "drain (m_runnables g)")
    from drain_fifo [OF d] have f: "prefix (executed dtr) (map rid (m_runnables g) @ scheduled dtr)"
      by simp
    from callback_after_zombies [OF z [unfolded Some] d, of h] c ze f show ?thesis
      by (cases dres)
        (auto simp: executed_Cons executed_Nil executed_append scheduled_Cons scheduled_Nil
          scheduled_append)
  qed
qed

lemma callback_returns:
  assumes c: "callback b h g = (tr, Some g')"
  shows "\<exists>rs. tr = DeleteContextGroupData h # fst (FreeZombies b g) @ Lock m_async_mutex
            # concat (map task_turn rs)
            @ [UvClose h, Store_async_handle_null, Unlock m_async_mutex]
          \<and> rs = m_runnables g @ concat (map arrivals rs)
          \<and> (\<forall>r \<in> set rs. executed (fst (run_Runnable r)) = [rid r])
          \<and> executed tr = map rid rs"
    and "g' = g\<lparr>m_value_zombies := [], m_context_zombies := [], m_runnables := [],
            m_async_handle := None\<rparr>"
proof -
  obtain ztr zr where z: "FreeZombies b g = (ztr, zr)"
    by (cases "FreeZombies b g")
  from c z obtain g1 where zr: "zr = Some g1"
    by (cases zr) (simp_all add: callback_def)
  obtain dtr dres where d: "drain (m_runnables g) = (dtr, dres)"
    by (cases "drain (m_runnables g)")
  from callback_after_zombies [OF z [unfolded zr] d, of h] c obtain q where
    dres: "dres = Some q"
    and tr: "tr = DeleteContextGroupData h # ztr @ Lock m_async_mutex # dtr
               @ [UvClose h, Store_async_handle_null, Unlock m_async_mutex]"
    and g': "g' = g1\<lparr>m_runnables := q, m_async_handle := None\<rparr>"
    by (cases dres) simp_all
  from drain_returns [OF d [unfolded dres]] obtain rs where
    q: "q = []" and dtr: "dtr = concat (map task_turn rs)"
    and rs: "rs = m_runnables g @ concat (map arrivals rs)"
    and ok: "\<forall>r \<in> set rs. snd (run_Runnable r) \<noteq> None"
    by blast
  from executed_FreeZombies [of b g] z have ze: "executed ztr = []"
    by simp
  have "executed tr = map rid rs"
    using tr dtr ze ok
    by (simp add: executed_Cons executed_Nil executed_append executed_turns)
  moreover have "\<forall>r \<in> set rs. executed (fst (run_Runnable r)) = [rid r]"
    using ok by (simp add: executed_run_Runnable)
  moreover have "tr = DeleteContextGroupData h # fst (FreeZombies b g) @ Lock m_async_mutex
            # concat (map task_turn rs)
            @ [UvClose h, Store_async_handle_null, Unlock m_async_mutex]"
    using tr dtr z by simp
  ultimately show "\<exists>rs. tr = DeleteContextGroupData h # fst (FreeZombies b g) @ Lock m_async_mutex
            # concat (map task_turn rs)
            @ [UvClose h, Store_async_handle_null, Unlock m_async_mutex]
          \<and> rs = m_runnables g @ concat (map arrivals rs)
          \<and> (\<forall>r \<in> set rs. executed (fst (run_Runnable r)) = [rid r])
          \<and> executed tr = map rid rs"
    using rs by blast
  show "g' = g\<lparr>m_value_zombies := [], m_context_zombies := [], m_runnables := [],
            m_async_handle := None\<rparr>"
    using g' q FreeZombies_state [OF z [unfolded zr]] by simp
qed

lemma find_inContextCallback_asserted:
  "snd (find_inContextCallback st r n c supers) = None
     \<longleftrightarrow> AndroidLogAssert \<in> set (fst (find_inContextCallback st r n c supers))"
proof (induction supers arbitrary: n c)
  case Nil
  then show ?case by simp
next
  case (Cons s ss)
  from Cons [of "Suc n" s] show ?case
    by (cases "find_inContextCallback st r (Suc n) s ss") simp
qed

lemma run_Runnable_asserted:
  "snd (run_Runnable r) = None \<longleftrightarrow> AndroidLogAssert \<in> set (fst (run_Runnable r))"
proof (cases "c_runnable r")
  case (Some f)
  then show ?thesis by (simp add: run_Runnable_def)
next
  case None
  obtain t u where f: "find_inContextCallback (jvm_GetEnv r) (rid r) 0 (thiz_class r) (thiz_supers r) = (t, u)"
    by (cases "find_inContextCallback (jvm_GetEnv r) (rid r) 0 (thiz_class r) (thiz_supers r)")
  from find_inContextCallback_asserted [of "jvm_GetEnv r" "rid r" 0 "thiz_class r" "thiz_supers r"] f
  have "u = None \<longleftrightarrow> AndroidLogAssert \<in> set t"
    by simp
  with None f show ?thesis
    by (cases u) (auto simp: run_Runnable_def)
qed

lemma turns_not_asserted:
  "\<forall>r \<in> set rs. snd (run_Runnable r) \<noteq> None \<Longrightarrow>
     AndroidLogAssert \<notin> set (concat (map task_turn rs))"
  by (induction rs) (auto simp: task_turn_def run_Runnable_asserted)

lemma drain_asserted:
  "snd (drain q) = None \<longleftrightarrow> AndroidLogAssert \<in> set (fst (drain q))"
proof (cases "snd (drain q)")
  case None
  then have "drain q = (fst (drain q), None)"
    by (metis prod.collapse)
  then obtain rs r where
    "fst (drain q) = concat (map task_turn rs) @ Unlock m_async_mutex # fst (run_Runnable r)"
    and "snd (run_Runnable r) = None"
    using drain_asserts by blast
  with None show ?thesis
    by (simp add: run_Runnable_asserted)
next
  case (Some q')
  then have "drain q = (fst (drain q), Some q')"
    by (metis prod.collapse)
  then obtain rs where tr: "fst (drain q) = concat (map task_turn rs)"
    and ok: "\<forall>r \<in> set rs. snd (run_Runnable r) \<noteq> None"
    using drain_returns by blast
  from turns_not_asserted [OF ok] tr Some show ?thesis
    by simp
qed

lemma callback_asserted:
  "snd (callback b h g) = None \<longleftrightarrow> AndroidLogAssert \<in> set (fst (callback b h g))"
proof -
  obtain ztr zr where z: "FreeZombies b g = (ztr, zr)"
    by (cases "FreeZombies b g")
  from FreeZombies_asserted [of b g] z have za: "zr = None \<longleftrightarrow> AndroidLogAssert \<in> set ztr"
    by simp
  show ?thesis
  proof (cases zr)
    case None
    with z za show ?thesis
      by (simp add: callback_asserts_in_zombies)
  next
    case (Some g1)
    obtain dtr dres where d: "drain (m_runnables g) = (dtr, dres)"
      by (cases "drain (m_runnables g)")
    from drain_asserted [of "m_runnables g"] d have da: "dres = None \<longleftrightarrow> AndroidLogAssert \<in> set dtr"
      by simp
    from callback_after_zombies [OF z [unfolded Some] d, of h] za da Some show ?thesis
      by (cases dres) auto
  qed
qed

text \<open>
  Claim C1.  Every run of the dispatch callback starts with the zombie drain, before
  anything else but the deletion of the handle's data, and the task bodies it delivers are
  always an initial part of the tasks in the order they were queued (those in the queue
  at the wake, then those scheduled during the drain).  The callback fails to return only
  when \<^verbatim>\<open>__android_log_assert\<close> aborts the process (in \<^verbatim>\<open>FreeZombies\<close>, or for a Java
  task without an \<^verbatim>\<open>inContextCallback\<close> method).  When it returns, then after the
  zombie drain it takes the queue mutex and serves the tasks \<open>rs\<close> one turn each: the
  mutex is released, the body of that one task runs, the mutex is taken again and the task
  is erased; \<open>rs\<close> is the queue of the wake followed by the tasks that arrived during the
  turns, in that order, all of them; then, the queue being empty, the handle is closed,
  the handle pointer is set to null and the mutex is released.  The zombie lists and the
  queue are empty afterwards.
\<close>

theorem callback_drain:
  "callback b h g = (tr, res) \<Longrightarrow>
     (\<exists>rest. tr = DeleteContextGroupData h # fst (FreeZombies b g) @ rest)
     \<and> prefix (executed tr) (map rid (m_runnables g) @ scheduled tr)
     \<and> (res = None \<longleftrightarrow> AndroidLogAssert \<in> set tr)
     \<and> (\<forall>g'. res = Some g' \<longrightarrow>
          (\<exists>rs. tr = DeleteContextGroupData h # fst (FreeZombies b g) @ Lock m_async_mutex
                  # concat (map (\<lambda>r. Unlock m_async_mutex # fst (run_Runnable r)
                                    @ map (\<lambda>a. Scheduled (rid a)) (arrivals r)
                                    @ [Lock m_async_mutex, DeleteRunnable (rid r)]) rs)
                  @ [UvClose h, Store_async_handle_null, Unlock m_async_mutex]
             \<and> rs = m_runnables g @ concat (map arrivals rs)
             \<and> (\<forall>r \<in> set rs. executed (fst (run_Runnable r)) = [rid r])
             \<and> executed tr = map rid rs)
          \<and> g' = g\<lparr>m_value_zombies := [], m_context_zombies := [], m_runnables := [],
                   m_async_handle := None\<rparr>)"
proof (intro conjI allI impI)
  assume c: "callback b h g = (tr, res)"
  show "\<exists>rest. tr = DeleteContextGroupData h # fst (FreeZombies b g) @ rest"
    using c by (auto simp: callback_def split: prod.splits option.splits)
  show "prefix (executed tr) (map rid (m_runnables g) @ scheduled tr)"
    using c by (rule callback_fifo)
  show "res = None \<longleftrightarrow> AndroidLogAssert \<in> set tr"
    using callback_asserted [of b h g] c by simp
  fix g'
  assume "res = Some g'"
  with c have c': "callback b h g = (tr, Some g')"
    by simp
  have "(\<lambda>r. Unlock m_async_mutex # fst (run_Runnable r)
            @ map (\<lambda>a. Scheduled (rid a)) (arrivals r)
            @ [Lock m_async_mutex, DeleteRunnable (rid r)]) = task_turn"
    by (rule ext) (simp add: task_turn_def)
  with callback_returns(1) [OF c']
  show "\<exists>rs. tr = DeleteContextGroupData h # fst (FreeZombies b g) @ Lock m_async_mutex
                  # concat (map (\<lambda>r. Unlock m_async_mutex # fst (run_Runnable r)
                                    @ map (\<lambda>a. Scheduled (rid a)) (arrivals r)
                                    @ [Lock m_async_mutex, DeleteRunnable (rid r)]) rs)
                  @ [UvClose h, Store_async_handle_null, Unlock m_async_mutex]
             \<and> rs = m_runnables g @ concat (map arrivals rs)
             \<and> (\<forall>r \<in> set rs. executed (fst (run_Runnable r)) = [rid r])
             \<and> executed tr = map rid rs"
    by simp
  show "g' = g\<lparr>m_value_zombies := [], m_context_zombies := [], m_runnables := [],
                   m_async_handle := None\<rparr>"
    using c' by (rule callback_returns(2))
qed

lemma callback_example:
  "callback release_build 9 example_group =
    ([DeleteContextGroupData 9, Lock m_zombie_mutex, ValueReset 41,
   ValueReset 42, ContextReset 51, V8_ISOLATE_CTX 52,
   ProcessExit 52 (- 222), V8_UNLOCK 52, ContextReset 52, V8_ISOLATE_CTX 53,
   ProcessExit 53 (- 222), V8_UNLOCK 53, ContextReset 53,
   ContextZombieRelease 51, ContextZombieRelease 52,
   ContextZombieRelease 53, Unlock m_zombie_mutex, Lock m_async_mutex,
   Unlock m_async_mutex, CallCRunnable 1 10, Scheduled 3,
   Lock m_async_mutex, DeleteRunnable 1, Unlock m_async_mutex, JniGetEnv 2,
   AttachCurrentThread 2, GetObjectClass 2, GetMethodID 2 0,
   ExceptionClear 2, GetSuperclass 2, DeleteLocalRef 2, GetMethodID 2 1,
   DeleteLocalRef 2, CallVoidMethod 2, DeleteGlobalRefs 2,
   DetachCurrentThread 2, Lock m_async_mutex, DeleteRunnable 2,
   Unlock m_async_mutex, CallCRunnable 3 30, Lock m_async_mutex,
   DeleteRunnable 3, UvClose 9, Store_async_handle_null,
   Unlock m_async_mutex],
    Some (example_group\<lparr>m_value_zombies := [], m_context_zombies := [], m_runnables := [],
            m_async_handle := None\<rparr>))"
  by (simp add: callback_def FreeZombies_def example_group_def release_build_def
      task1_def task2_def task3_def run_Runnable_def task_turn_def)

theorem callback_drain_witness:
  "snd (callback release_build 9 example_group) =
       Some (example_group\<lparr>m_value_zombies := [], m_context_zombies := [], m_runnables := [],
            m_async_handle := None\<rparr>)
   \<and> map rid (m_runnables example_group) = [1, 2]
   \<and> scheduled (fst (callback release_build 9 example_group)) = [3]
   \<and> executed (fst (callback release_build 9 example_group)) = [1, 2, 3]
   \<and> prefix
       (executed (fst (callback release_build 9 example_group)))
       (map rid (m_runnables example_group)
          @ scheduled (fst (callback release_build 9 example_group)))
   \<and> AndroidLogAssert \<notin> set (fst (callback release_build 9 example_group))
   \<and> (\<exists>rs. fst (callback release_build 9 example_group) =
          DeleteContextGroupData 9 # fst (FreeZombies release_build example_group)
            @ Lock m_async_mutex
            # concat (map (\<lambda>r. Unlock m_async_mutex # fst (run_Runnable r)
                              @ map (\<lambda>a. Scheduled (rid a)) (arrivals r)
                              @ [Lock m_async_mutex, DeleteRunnable (rid r)]) rs)
            @ [UvClose 9, Store_async_handle_null, Unlock m_async_mutex]
        \<and> rs = m_runnables example_group @ concat (map arrivals rs)
        \<and> executed (fst (callback release_build 9 example_group)) = map rid rs)"
proof -
  note t = callback_drain [OF callback_example]
  have s: "snd (callback release_build 9 example_group) =
       Some (example_group\<lparr>m_value_zombies := [], m_context_zombies := [], m_runnables := [],
            m_async_handle := None\<rparr>)"
    by (simp add: callback_example)
  have v: "map rid (m_runnables example_group) = [1, 2]
      \<and> scheduled (fst (callback release_build 9 example_group)) = [3]
      \<and> executed (fst (callback release_build 9 example_group)) = [1, 2, 3]"
    unfolding callback_example fst_conv
    by (simp add: executed_def scheduled_def example_group_def task1_def task2_def)
  from t have "prefix
       (executed (fst (callback release_build 9 example_group)))
       (map rid (m_runnables example_group)
          @ scheduled (fst (callback release_build 9 example_group)))"
    and "AndroidLogAssert \<notin> set (fst (callback release_build 9 example_group))"
    and "\<exists>rs. fst (callback release_build 9 example_group) =
          DeleteContextGroupData 9 # fst (FreeZombies release_build example_group)
            @ Lock m_async_mutex
            # concat (map (\<lambda>r. Unlock m_async_mutex # fst (run_Runnable r)
                              @ map (\<lambda>a. Scheduled (rid a)) (arrivals r)
                              @ [Lock m_async_mutex, DeleteRunnable (rid r)]) rs)
            @ [UvClose 9, Store_async_handle_null, Unlock m_async_mutex]
        \<and> rs = m_runnables example_group @ concat (map arrivals rs)
        \<and> executed (fst (callback release_build 9 example_group)) = map rid rs"
    unfolding callback_example fst_conv
    by (simp, simp, blast)
  with s v show ?thesis
    by blast
qed

subsection \<open>The order of the teardown\<close>

lemma managed_values_loop_live: "managed_values_loop ws = map JSValueDispose (live ws)"
  by (induction ws) (simp_all add: live_def split: option.splits)

lemma managed_contexts_loop_live: "managed_contexts_loop ws = map JSContextDispose (live ws)"
  by (induction ws) (simp_all add: live_def split: option.splits)

lemma FreeZombies_cleared:
  "FreeZombies b (g\<lparr>m_runnables := [], m_isDefunct := True, m_managedValues := [],
        m_managedContexts := []\<rparr>) =
     (fst (FreeZombies b g),
      map_option (\<lambda>z. z\<lparr>m_runnables := [], m_isDefunct := True, m_managedValues := [],
        m_managedContexts := []\<rparr>) (snd (FreeZombies b g)))"
  by (simp add: FreeZombies_def split: prod.splits option.splits)

lemma Dispose_asserts:
  assumes "\<not> m_isDefunct g" and "snd (FreeZombies b g) = None"
  shows "Dispose b True (p, g) =
      ([RunnablesClear, RemoveGCPrologueCallback (m_isolate g)]
         @ map JSValueDispose (live (m_managedValues g))
         @ map JSContextDispose (live (m_managedContexts g))
         @ [Store_isDefunct]
         @ fst (FreeZombies b g), Aborted)"
  using assms
  by (simp add: Dispose_def FreeZombies_cleared managed_values_loop_live managed_contexts_loop_live)

lemma Dispose_returns:
  assumes "\<not> m_isDefunct g" and "snd (FreeZombies b g) \<noteq> None"
  shows "Dispose b True (p, g) =
      ([RunnablesClear, RemoveGCPrologueCallback (m_isolate g)]
         @ map JSValueDispose (live (m_managedValues g))
         @ map JSContextDispose (live (m_managedContexts g))
         @ [Store_isDefunct]
         @ fst (FreeZombies b g)
         @ [Lock s_mutex]
         @ (if m_isolate g \<in> dom (s_isolate_map p) then [IsolateMapErase (m_isolate g)] else [])
         @ [Unlock s_mutex]
         @ (if m_manage_isolate g then [IsolateDispose (m_isolate g)]
            else Lock s_mutex
              # (if s_init_count p = 0 then [V8Dispose, V8ShutdownPlatform, DeletePlatform] else [])
              @ [Unlock s_mutex])
         @ (if fst (m_startup_data g) \<noteq> None \<and> snd (m_startup_data g) \<noteq> 0
            then [DeleteStartupData] else []),
       Returned (p\<lparr>s_isolate_map := (s_isolate_map p)(m_isolate g := None),
               s_platform := (s_platform p \<and> (m_manage_isolate g \<or> s_init_count p \<noteq> 0))\<rparr>,
             g\<lparr>m_runnables := [], m_isDefunct := True, m_managedValues := [],
               m_managedContexts := [], m_value_zombies := [], m_context_zombies := []\<rparr>))"
proof -
  from assms(2) obtain z where z: "snd (FreeZombies b g) = Some z"
    by (cases "snd (FreeZombies b g)") simp_all
  then have "FreeZombies b g = (fst (FreeZombies b g), Some z)"
    by (metis prod.collapse)
  then have zs: "z = g\<lparr>m_value_zombies := [], m_context_zombies := []\<rparr>"
    by (rule FreeZombies_state)
  show ?thesis
    using assms(1) z zs
    by (auto simp: Dispose_def FreeZombies_cleared managed_values_loop_live
        managed_contexts_loop_live dispose_v8_def dom_def)
qed


text \<open>
  Claim C3, as amended.  On a group that is not defunct and that a \<^verbatim>\<open>shared_ptr\<close>
  owns, \<^verbatim>\<open>Dispose\<close> performs, in this order: the queue is cleared; (1) the GC-prologue
  hook is removed from the isolate; (2) every managed value that is still alive is
  disposed, then every such managed context; (3) the defunct flag is set; (4) the zombies
  are freed.  In a \<^verbatim>\<open>DEBUG\<close> build with a context zombie that is not defunct the zombie
  drain ends in the assertion, and the process is aborted there.  Otherwise: (5) with the
  registry mutex held, the entry of the isolate is erased if there is one; (6) the isolate
  is disposed if the group owns it, otherwise \<^verbatim>\<open>dispose_v8\<close> is called, which takes the
  mutex, shuts the runtime down only if the count is zero, and does not decrement the
  count; (7) the startup data is deleted if the pointer is set and the size is not zero.
  The runtime count after \<^verbatim>\<open>Dispose\<close> is what it was before.
\<close>

theorem Dispose_order:
  "\<not> m_isDefunct g \<Longrightarrow>
     (DEBUG b \<and> (\<exists>c \<in> set (m_context_zombies g). \<not> IsDefunct c) \<longrightarrow>
        Dispose b True (p, g) =
          ([RunnablesClear, RemoveGCPrologueCallback (m_isolate g)]
             @ map JSValueDispose (live (m_managedValues g))
             @ map JSContextDispose (live (m_managedContexts g))
             @ [Store_isDefunct]
             @ fst (FreeZombies b g), Aborted)
        \<and> last (fst (FreeZombies b g)) = AndroidLogAssert)
     \<and> (\<not> DEBUG b \<or> (\<forall>c \<in> set (m_context_zombies g). IsDefunct c) \<longrightarrow>
        Dispose b True (p, g) =
          ([RunnablesClear, RemoveGCPrologueCallback (m_isolate g)]
             @ map JSValueDispose (live (m_managedValues g))
             @ map JSContextDispose (live (m_managedContexts g))
             @ [Store_isDefunct]
             @ fst (FreeZombies b g)
             @ [Lock s_mutex]
             @ (if m_isolate g \<in> dom (s_isolate_map p) then [IsolateMapErase (m_isolate g)] else [])
             @ [Unlock s_mutex]
             @ (if m_manage_isolate g then [IsolateDispose (m_isolate g)]
                else Lock s_mutex
                  # (if s_init_count p = 0 then [V8Dispose, V8ShutdownPlatform, DeletePlatform]
                     else [])
                  @ [Unlock s_mutex])
             @ (if fst (m_startup_data g) \<noteq> None \<and> snd (m_startup_data g) \<noteq> 0
                then [DeleteStartupData] else []),
           Returned (p\<lparr>s_isolate_map := (s_isolate_map p)(m_isolate g := None),
                   s_platform := (s_platform p \<and> (m_manage_isolate g \<or> s_init_count p \<noteq> 0))\<rparr>,
                 g\<lparr>m_runnables := [], m_isDefunct := True, m_managedValues := [],
                   m_managedContexts := [], m_value_zombies := [], m_context_zombies := []\<rparr>)))
     \<and> (\<forall>p' g'. snd (Dispose b True (p, g)) = Returned (p', g') \<longrightarrow>
          s_init_count p' = s_init_count p)"
proof (intro conjI impI allI)
  assume n: "\<not> m_isDefunct g"
  {
    assume a: "DEBUG b \<and> (\<exists>c \<in> set (m_context_zombies g). \<not> IsDefunct c)"
    then have "snd (FreeZombies b g) = None"
      by (simp add: FreeZombies_asserts_iff)
    with n show "Dispose b True (p, g) =
          ([RunnablesClear, RemoveGCPrologueCallback (m_isolate g)]
             @ map JSValueDispose (live (m_managedValues g))
             @ map JSContextDispose (live (m_managedContexts g))
             @ [Store_isDefunct]
             @ fst (FreeZombies b g), Aborted)"
      by (rule Dispose_asserts)
    from a obtain ds c rest where
      s: "m_context_zombies g = ds @ c # rest" "\<forall>d \<in> set ds. IsDefunct d" "\<not> IsDefunct c"
      using split_first_not_defunct by blast
    from a have d: "DEBUG b"
      by simp
    show "last (fst (FreeZombies b g)) = AndroidLogAssert"
      by (simp add: FreeZombies_asserts [OF d s])
  }
  {
    assume "\<not> DEBUG b \<or> (\<forall>c \<in> set (m_context_zombies g). IsDefunct c)"
    then have "snd (FreeZombies b g) \<noteq> None"
      by (auto simp: FreeZombies_asserts_iff)
    with n show "Dispose b True (p, g) =
          ([RunnablesClear, RemoveGCPrologueCallback (m_isolate g)]
             @ map JSValueDispose (live (m_managedValues g))
             @ map JSContextDispose (live (m_managedContexts g))
             @ [Store_isDefunct]
             @ fst (FreeZombies b g)
             @ [Lock s_mutex]
             @ (if m_isolate g \<in> dom (s_isolate_map p) then [IsolateMapErase (m_isolate g)] else [])
             @ [Unlock s_mutex]
             @ (if m_manage_isolate g then [IsolateDispose (m_isolate g)]
                else Lock s_mutex
                  # (if s_init_count p = 0 then [V8Dispose, V8ShutdownPlatform, DeletePlatform]
                     else [])
                  @ [Unlock s_mutex])
             @ (if fst (m_startup_data g) \<noteq> None \<and> snd (m_startup_data g) \<noteq> 0
                then [DeleteStartupData] else []),
           Returned (p\<lparr>s_isolate_map := (s_isolate_map p)(m_isolate g := None),
                   s_platform := (s_platform p \<and> (m_manage_isolate g \<or> s_init_count p \<noteq> 0))\<rparr>,
                 g\<lparr>m_runnables := [], m_isDefunct := True, m_managedValues := [],
                   m_managedContexts := [], m_value_zombies := [], m_context_zombies := []\<rparr>))"
      by (rule Dispose_returns)
  }
  fix p' g'
  assume s: "snd (Dispose b True (p, g)) = Returned (p', g')"
  show "s_init_count p' = s_init_count p"
  proof (cases "snd (FreeZombies b g) = None")
    case True
    from Dispose_asserts [OF n True, of p] s show ?thesis
      by simp
  next
    case False
    from Dispose_returns [OF n False, of p] s show ?thesis
      by auto
  qed
qed

theorem Dispose_order_witness:
  "\<not> m_isDefunct adopted_group
   \<and> \<not> DEBUG release_build
   \<and> DEBUG debug_build
   \<and> \<lparr>ctx_ptr = 52, IsDefunct = False\<rparr> \<in> set (m_context_zombies adopted_group)
   \<and> Dispose release_build True (example_process, adopted_group) =
       ([RunnablesClear, RemoveGCPrologueCallback 7, JSValueDispose 61,
         JSValueDispose 62, JSContextDispose 71, Store_isDefunct,
         Lock m_zombie_mutex, ValueReset 41, ValueReset 42, ContextReset 51,
         V8_ISOLATE_CTX 52, ProcessExit 52 (- 222), V8_UNLOCK 52, ContextReset 52,
         V8_ISOLATE_CTX 53, ProcessExit 53 (- 222), V8_UNLOCK 53, ContextReset 53,
         ContextZombieRelease 51, ContextZombieRelease 52,
         ContextZombieRelease 53, Unlock m_zombie_mutex, Lock s_mutex,
         IsolateMapErase 7, Unlock s_mutex, Lock s_mutex, Unlock s_mutex],
        Returned (example_process\<lparr>s_isolate_map := Map.empty\<rparr>,
          adopted_group\<lparr>m_runnables := [], m_isDefunct := True, m_managedValues := [],
             m_managedContexts := [], m_value_zombies := [], m_context_zombies := []\<rparr>))
   \<and> Dispose debug_build True (example_process, adopted_group) =
       ([RunnablesClear, RemoveGCPrologueCallback 7, JSValueDispose 61,
         JSValueDispose 62, JSContextDispose 71, Store_isDefunct,
         Lock m_zombie_mutex, ValueReset 41, ValueReset 42, ContextReset 51,
         V8_ISOLATE_CTX 52, ProcessExit 52 (- 222), AndroidLogAssert], Aborted)"
proof -
  have n: "\<not> m_isDefunct adopted_group"
    by (simp add: adopted_group_def example_group_def)
  have r: "\<not> DEBUG release_build" and d: "DEBUG debug_build"
    by (simp_all add: release_build_def debug_build_def)
  have z: "\<lparr>ctx_ptr = 52, IsDefunct = False\<rparr> \<in> set (m_context_zombies adopted_group)"
    by (simp add: adopted_group_def example_group_def)
  then have e: "\<exists>c \<in> set (m_context_zombies adopted_group). \<not> IsDefunct c"
    by (rule bexI [rotated]) simp
  have fr: "fst (FreeZombies release_build adopted_group) =
      [Lock m_zombie_mutex, ValueReset 41, ValueReset 42, ContextReset 51,
         V8_ISOLATE_CTX 52, ProcessExit 52 (- 222), V8_UNLOCK 52, ContextReset 52,
         V8_ISOLATE_CTX 53, ProcessExit 53 (- 222), V8_UNLOCK 53, ContextReset 53,
         ContextZombieRelease 51, ContextZombieRelease 52,
         ContextZombieRelease 53, Unlock m_zombie_mutex]"
    and fd: "fst (FreeZombies debug_build adopted_group) =
      [Lock m_zombie_mutex, ValueReset 41, ValueReset 42, ContextReset 51,
         V8_ISOLATE_CTX 52, ProcessExit 52 (- 222), AndroidLogAssert]"
    by (simp_all add: FreeZombies_def adopted_group_def example_group_def release_build_def
        debug_build_def)
  from Dispose_order [OF n, of release_build example_process] r
  have "Dispose release_build True (example_process, adopted_group) =
       ([RunnablesClear, RemoveGCPrologueCallback 7, JSValueDispose 61,
         JSValueDispose 62, JSContextDispose 71, Store_isDefunct,
         Lock m_zombie_mutex, ValueReset 41, ValueReset 42, ContextReset 51,
         V8_ISOLATE_CTX 52, ProcessExit 52 (- 222), V8_UNLOCK 52, ContextReset 52,
         V8_ISOLATE_CTX 53, ProcessExit 53 (- 222), V8_UNLOCK 53, ContextReset 53,
         ContextZombieRelease 51, ContextZombieRelease 52,
         ContextZombieRelease 53, Unlock m_zombie_mutex, Lock s_mutex,
         IsolateMapErase 7, Unlock s_mutex, Lock s_mutex, Unlock s_mutex],
        Returned (example_process\<lparr>s_isolate_map := Map.empty\<rparr>,
          adopted_group\<lparr>m_runnables := [], m_isDefunct := True, m_managedValues := [],
             m_managedContexts := [], m_value_zombies := [], m_context_zombies := []\<rparr>))"
    unfolding fr
    by (simp add: adopted_group_def example_group_def example_process_def live_def)
  moreover from Dispose_order [OF n, of debug_build example_process] d e
  have "Dispose debug_build True (example_process, adopted_group) =
       ([RunnablesClear, RemoveGCPrologueCallback 7, JSValueDispose 61,
         JSValueDispose 62, JSContextDispose 71, Store_isDefunct,
         Lock m_zombie_mutex, ValueReset 41, ValueReset 42, ContextReset 51,
         V8_ISOLATE_CTX 52, ProcessExit 52 (- 222), AndroidLogAssert], Aborted)"
    unfolding fd
    by (simp add: adopted_group_def example_group_def live_def)
  ultimately show ?thesis
    using n r d z by blast
qed

lemma Dispose_adopted_example:
  "Dispose release_build True (example_process, adopted_group) =
   ([RunnablesClear, RemoveGCPrologueCallback 7, JSValueDispose 61,
   JSValueDispose 62, JSContextDispose 71, Store_isDefunct,
   Lock m_zombie_mutex, ValueReset 41, ValueReset 42, ContextReset 51,
   V8_ISOLATE_CTX 52, ProcessExit 52 (- 222), V8_UNLOCK 52, ContextReset 52,
   V8_ISOLATE_CTX 53, ProcessExit 53 (- 222), V8_UNLOCK 53, ContextReset 53,
   ContextZombieRelease 51, ContextZombieRelease 52,
   ContextZombieRelease 53, Unlock m_zombie_mutex, Lock s_mutex,
   IsolateMapErase 7, Unlock s_mutex, Lock s_mutex, Unlock s_mutex],
    Returned (example_process\<lparr>s_isolate_map := Map.empty\<rparr>,
          adopted_group\<lparr>m_runnables := [], m_isDefunct := True, m_managedValues := [],
             m_managedContexts := [], m_value_zombies := [], m_context_zombies := []\<rparr>))"
  by (simp add: Dispose_def FreeZombies_def dispose_v8_def adopted_group_def example_group_def
      example_process_def release_build_def)

text \<open>
  The claim as it stands fails in step (6): the example group does not own its isolate
  (a \<^verbatim>\<open>shared_ptr\<close> owns the group), the count is 1 before its \<^verbatim>\<open>Dispose\<close>, and the
  process \<^verbatim>\<open>Dispose\<close> returns has the count 1.
\<close>

theorem Dispose_refcount_counterexample:
  "\<not> m_isDefunct adopted_group \<and> \<not> m_manage_isolate adopted_group
   \<and> s_init_count example_process = 1
   \<and> snd (Dispose release_build True (example_process, adopted_group)) =
       Returned (example_process\<lparr>s_isolate_map := Map.empty\<rparr>,
          adopted_group\<lparr>m_runnables := [], m_isDefunct := True, m_managedValues := [],
             m_managedContexts := [], m_value_zombies := [], m_context_zombies := []\<rparr>)
   \<and> s_init_count (example_process\<lparr>s_isolate_map := Map.empty\<rparr>) = 1"
  unfolding Dispose_adopted_example
  by (simp add: adopted_group_def example_group_def example_process_def)

subsection \<open>Pending tasks at disposal\<close>

lemma callback_empty_queue:
  "m_runnables g = [] \<Longrightarrow> executed (fst (callback b h g)) = []"
proof -
  assume e: "m_runnables g = []"
  obtain tr res where c: "callback b h g = (tr, res)"
    by (cases "callback b h g")
  obtain ztr zr where z: "FreeZombies b g = (ztr, zr)"
    by (cases "FreeZombies b g")
  from executed_FreeZombies [of b g] z have ze: "executed ztr = []"
    by simp
  show ?thesis
  proof (cases zr)
    case None
    with z ze show ?thesis
      by (simp add: callback_asserts_in_zombies executed_Cons)
  next
    case (Some g1)
    have "drain (m_runnables g) = ([], Some [])"
      using e by simp
    from callback_after_zombies [OF z [unfolded Some] this, of h] ze show ?thesis
      by (simp add: executed_Cons executed_Nil executed_append)
  qed
qed

text \<open>
  Claim C10.  On a group that is not defunct, \<^verbatim>\<open>Dispose\<close> delivers no task body.
  When a \<^verbatim>\<open>shared_ptr\<close> owns the group (so that \<^verbatim>\<open>shared_from_this()\<close> succeeds),
  it clears the queue as its first action, before the hook is removed and the managed
  objects are walked.  And when it has returned the queue is empty, so that a later run
  of the dispatch callback on the group delivers no task body either: a task pending when
  \<^verbatim>\<open>Dispose\<close> runs is never executed.
\<close>

theorem Dispose_discards_runnables:
  "\<not> m_isDefunct g \<Longrightarrow>
     (owned \<longrightarrow>
        (\<exists>rest. fst (Dispose b owned (p, g)) =
           RunnablesClear # RemoveGCPrologueCallback (m_isolate g)
             # map JSValueDispose (live (m_managedValues g))
             @ map JSContextDispose (live (m_managedContexts g)) @ rest))
     \<and> executed (fst (Dispose b owned (p, g))) = []
     \<and> (\<forall>p' g'. snd (Dispose b owned (p, g)) = Returned (p', g') \<longrightarrow>
          m_runnables g' = [] \<and> (\<forall>h. executed (fst (callback b h g')) = []))"
proof (intro conjI allI impI)
  assume n: "\<not> m_isDefunct g"
  {
    assume o: owned
    show "\<exists>rest. fst (Dispose b owned (p, g)) =
           RunnablesClear # RemoveGCPrologueCallback (m_isolate g)
             # map JSValueDispose (live (m_managedValues g))
             @ map JSContextDispose (live (m_managedContexts g)) @ rest"
    proof (cases "snd (FreeZombies b g) = None")
      case True
      from Dispose_asserts [OF n True, of p] o show ?thesis
        by simp
    next
      case False
      from Dispose_returns [OF n False, of p] o show ?thesis
        by simp
    qed
  }
  show "executed (fst (Dispose b owned (p, g))) = []"
    by (rule Dispose_trace_executed)
  fix p' g'
  assume s: "snd (Dispose b owned (p, g)) = Returned (p', g')"
  have o: owned
  proof (rule ccontr)
    assume "\<not> owned"
    with n s show False
      by (simp add: Dispose_unowned)
  qed
  show q: "m_runnables g' = []"
  proof (cases "snd (FreeZombies b g) = None")
    case True
    from Dispose_asserts [OF n True, of p] s o show ?thesis
      by simp
  next
    case False
    from Dispose_returns [OF n False, of p] s o show ?thesis
      by auto
  qed
  fix h
  from q show "executed (fst (callback b h g')) = []"
    by (rule callback_empty_queue)
qed

theorem Dispose_discards_runnables_witness:
  "\<not> m_isDefunct example_group
   \<and> map rid (m_runnables example_group) = [1, 2]
   \<and> (\<exists>rest. fst (Dispose release_build True (example_process, example_group)) =
         RunnablesClear # RemoveGCPrologueCallback 7
           # map JSValueDispose [61, 62] @ map JSContextDispose [71] @ rest)
   \<and> executed (fst (Dispose release_build True (example_process, example_group))) = []
   \<and> snd (Dispose release_build True (example_process, example_group)) =
       Returned (example_process\<lparr>s_isolate_map := Map.empty\<rparr>,
           example_group\<lparr>m_runnables := [], m_isDefunct := True, m_managedValues := [],
             m_managedContexts := [], m_value_zombies := [], m_context_zombies := []\<rparr>)
   \<and> m_runnables (example_group\<lparr>m_runnables := [], m_isDefunct := True, m_managedValues := [],
             m_managedContexts := [], m_value_zombies := [], m_context_zombies := []\<rparr>) = []
   \<and> executed (fst (callback release_build 9
        (example_group\<lparr>m_runnables := [], m_isDefunct := True, m_managedValues := [],
             m_managedContexts := [], m_value_zombies := [], m_context_zombies := []\<rparr>))) = []"
proof -
  have n: "\<not> m_isDefunct example_group" and m: "map rid (m_runnables example_group) = [1, 2]"
    by (simp_all add: example_group_def task1_def task2_def)
  have l: "live (m_managedValues example_group) = [61, 62]"
    "live (m_managedContexts example_group) = [71]" "m_isolate example_group = 7"
    by (simp_all add: example_group_def live_def)
  note t = Dispose_discards_runnables [OF n, of True release_build example_process]
  have s: "snd (Dispose release_build True (example_process, example_group)) =
       Returned (example_process\<lparr>s_isolate_map := Map.empty\<rparr>,
           example_group\<lparr>m_runnables := [], m_isDefunct := True, m_managedValues := [],
             m_managedContexts := [], m_value_zombies := [], m_context_zombies := []\<rparr>)"
    by (simp add: Dispose_example)
  from t l have "\<exists>rest. fst (Dispose release_build True (example_process, example_group)) =
         RunnablesClear # RemoveGCPrologueCallback 7
           # map JSValueDispose [61, 62] @ map JSContextDispose [71] @ rest"
    by simp
  moreover from t
  have "executed (fst (Dispose release_build True (example_process, example_group))) = []"
    by blast
  moreover from t s
  have "m_runnables (example_group\<lparr>m_runnables := [], m_isDefunct := True, m_managedValues := [],
             m_managedContexts := [], m_value_zombies := [], m_context_zombies := []\<rparr>) = []
    \<and> executed (fst (callback release_build 9
        (example_group\<lparr>m_runnables := [], m_isDefunct := True, m_managedValues := [],
             m_managedContexts := [], m_value_zombies := [], m_context_zombies := []\<rparr>))) = []"
    by blast
  ultimately show ?thesis
    using n m s by blast
qed

subsection \<open>GC callbacks\<close>

lemma list_remove_fresh:
  "gc_ptr item \<notin> gc_ptr ` set xs \<Longrightarrow> list_remove item xs = xs"
  by (induction xs) (auto simp: list_remove_def)

lemma unregister_loop_filter:
  "distinct (map gc_ptr (dn @ rest)) \<Longrightarrow>
     unregister_loop c d (dn @ rest) rest =
       dn @ filter (\<lambda>e. \<not> (cb e = c \<and> data e = d)) rest"
proof (induction rest arbitrary: dn)
  case Nil
  then show ?case by simp
next
  case (Cons item rest)
  show ?case
  proof (cases "cb item = c \<and> data item = d")
    case True
    from Cons.prems have f1: "gc_ptr item \<notin> gc_ptr ` set dn" and f2: "gc_ptr item \<notin> gc_ptr ` set rest"
      and d: "distinct (map gc_ptr (dn @ rest))"
      by auto
    have "list_remove item (dn @ item # rest) = dn @ rest"
      using list_remove_fresh [OF f1] list_remove_fresh [OF f2]
      by (simp add: list_remove_def)
    with True Cons.IH [OF d] list_remove_fresh [OF f2] show ?thesis
      by simp
  next
    case False
    from Cons.prems have "distinct (map gc_ptr ((dn @ [item]) @ rest))"
      by simp
    from Cons.IH [OF this] False show ?thesis
      by auto
  qed
qed

lemma UnregisterGCCallback_filter:
  "distinct (map gc_ptr (m_gc_callbacks g)) \<Longrightarrow>
     UnregisterGCCallback c d g =
       g\<lparr>m_gc_callbacks := filter (\<lambda>e. \<not> (cb e = c \<and> data e = d)) (m_gc_callbacks g)\<rparr>"
  using unregister_loop_filter [of "[]" "m_gc_callbacks g" c d]
  by (simp add: UnregisterGCCallback_def)

lemma RegisterGCCallback_distinct:
  "distinct (map gc_ptr (m_gc_callbacks g)) \<Longrightarrow> p \<notin> gc_ptr ` set (m_gc_callbacks g) \<Longrightarrow>
     distinct (map gc_ptr (m_gc_callbacks (RegisterGCCallback p c d g)))"
  by (simp add: RegisterGCCallback_def)

lemma UnregisterGCCallback_distinct:
  "distinct (map gc_ptr (m_gc_callbacks g)) \<Longrightarrow>
     distinct (map gc_ptr (m_gc_callbacks (UnregisterGCCallback c d g)))"
  by (simp add: UnregisterGCCallback_filter distinct_map_filter)

text \<open>
  Claim C8.  The entries of the callback list are owned by \<^verbatim>\<open>unique_ptr\<close>s, so their
  addresses are pairwise distinct (\<^verbatim>\<open>RegisterGCCallback\<close>, which allocates a new
  entry, and \<^verbatim>\<open>UnregisterGCCallback\<close> keep it so).  On every such list
  \<^verbatim>\<open>UnregisterGCCallback(cb, data)\<close> removes every entry whose callback and data both
  match, duplicates included, leaves every other entry in place and in order, and changes
  nothing else of the group; registering a pair and unregistering it at once leaves no
  matching entry (the list is what unregistering alone gives), and so does registering
  it twice and unregistering once.
\<close>

theorem UnregisterGCCallback_removes_all:
  "distinct (map gc_ptr (m_gc_callbacks g)) \<Longrightarrow>
     UnregisterGCCallback c d g =
       g\<lparr>m_gc_callbacks := filter (\<lambda>e. \<not> (cb e = c \<and> data e = d)) (m_gc_callbacks g)\<rparr>
     \<and> (\<forall>p. p \<notin> gc_ptr ` set (m_gc_callbacks g) \<longrightarrow>
          filter (\<lambda>e. cb e = c \<and> data e = d)
            (m_gc_callbacks (UnregisterGCCallback c d (RegisterGCCallback p c d g))) = []
          \<and> UnregisterGCCallback c d (RegisterGCCallback p c d g) = UnregisterGCCallback c d g)
     \<and> (\<forall>p q. p \<notin> gc_ptr ` set (m_gc_callbacks g) \<and> q \<notin> gc_ptr ` set (m_gc_callbacks g) \<and> p \<noteq> q \<longrightarrow>
          UnregisterGCCallback c d (RegisterGCCallback q c d (RegisterGCCallback p c d g)) =
            UnregisterGCCallback c d g)"
proof (intro conjI allI impI)
  assume dist: "distinct (map gc_ptr (m_gc_callbacks g))"
  show "UnregisterGCCallback c d g =
       g\<lparr>m_gc_callbacks := filter (\<lambda>e. \<not> (cb e = c \<and> data e = d)) (m_gc_callbacks g)\<rparr>"
    using dist by (rule UnregisterGCCallback_filter)
  {
    fix p
    assume p: "p \<notin> gc_ptr ` set (m_gc_callbacks g)"
    note d1 = RegisterGCCallback_distinct [OF dist p, of c d]
    show "filter (\<lambda>e. cb e = c \<and> data e = d)
            (m_gc_callbacks (UnregisterGCCallback c d (RegisterGCCallback p c d g))) = []"
      by (simp add: UnregisterGCCallback_filter [OF d1])
    show "UnregisterGCCallback c d (RegisterGCCallback p c d g) = UnregisterGCCallback c d g"
      by (simp add: UnregisterGCCallback_filter [OF d1] UnregisterGCCallback_filter [OF dist])
        (simp add: RegisterGCCallback_def)
  }
  fix p q
  assume pq: "p \<notin> gc_ptr ` set (m_gc_callbacks g) \<and> q \<notin> gc_ptr ` set (m_gc_callbacks g) \<and> p \<noteq> q"
  then have p: "p \<notin> gc_ptr ` set (m_gc_callbacks g)"
    by simp
  note d1 = RegisterGCCallback_distinct [OF dist p, of c d]
  from pq have "q \<notin> gc_ptr ` set (m_gc_callbacks (RegisterGCCallback p c d g))"
    by (auto simp: RegisterGCCallback_def)
  note d2 = RegisterGCCallback_distinct [OF d1 this, of c d]
  show "UnregisterGCCallback c d (RegisterGCCallback q c d (RegisterGCCallback p c d g)) =
            UnregisterGCCallback c d g"
    by (simp add: UnregisterGCCallback_filter [OF d2] UnregisterGCCallback_filter [OF dist])
      (simp add: RegisterGCCallback_def)
qed


theorem UnregisterGCCallback_removes_all_witness:
  "distinct (map gc_ptr (m_gc_callbacks example_group))
   \<and> m_gc_callbacks example_group =
       [\<lparr>gc_ptr = 80, cb = 1, data = 5\<rparr>, \<lparr>gc_ptr = 81, cb = 2, data = 5\<rparr>,
        \<lparr>gc_ptr = 82, cb = 1, data = 5\<rparr>]
   \<and> m_gc_callbacks (UnregisterGCCallback 1 5 example_group) = [\<lparr>gc_ptr = 81, cb = 2, data = 5\<rparr>]
   \<and> m_gc_callbacks (UnregisterGCCallback 3 5 (RegisterGCCallback 83 3 5 example_group)) =
       m_gc_callbacks example_group
   \<and> m_gc_callbacks (UnregisterGCCallback 1 5
         (RegisterGCCallback 84 1 5 (RegisterGCCallback 83 1 5 example_group))) =
       [\<lparr>gc_ptr = 81, cb = 2, data = 5\<rparr>]"
proof -
  have d: "distinct (map gc_ptr (m_gc_callbacks example_group))"
    and m: "m_gc_callbacks example_group =
       [\<lparr>gc_ptr = 80, cb = 1, data = 5\<rparr>, \<lparr>gc_ptr = 81, cb = 2, data = 5\<rparr>,
        \<lparr>gc_ptr = 82, cb = 1, data = 5\<rparr>]"
    by (simp_all add: example_group_def)
  have f: "83 \<notin> gc_ptr ` set (m_gc_callbacks example_group)
      \<and> 84 \<notin> gc_ptr ` set (m_gc_callbacks example_group) \<and> (83::nat) \<noteq> 84"
    by (simp add: m)
  note t = UnregisterGCCallback_removes_all [OF d, of 1 5]
  note u = UnregisterGCCallback_removes_all [OF d, of 3 5]
  from t have a: "m_gc_callbacks (UnregisterGCCallback 1 5 example_group) =
      [\<lparr>gc_ptr = 81, cb = 2, data = 5\<rparr>]"
    by (simp add: m)
  from u f have "UnregisterGCCallback 3 5 (RegisterGCCallback 83 3 5 example_group) =
      UnregisterGCCallback 3 5 example_group"
    by blast
  with u have b: "m_gc_callbacks (UnregisterGCCallback 3 5 (RegisterGCCallback 83 3 5 example_group)) =
       m_gc_callbacks example_group"
    by (simp add: m)
  from t f have "UnregisterGCCallback 1 5
         (RegisterGCCallback 84 1 5 (RegisterGCCallback 83 1 5 example_group)) =
      UnregisterGCCallback 1 5 example_group"
    by blast
  with a have c: "m_gc_callbacks (UnregisterGCCallback 1 5
         (RegisterGCCallback 84 1 5 (RegisterGCCallback 83 1 5 example_group))) =
       [\<lparr>gc_ptr = 81, cb = 2, data = 5\<rparr>]"
    by simp
  from d m a b c show ?thesis
    by blast
qed

subsection \<open>The mutexes held at engine calls and host callbacks\<close>

lemma held_append: "held H (xs @ ys) = held (held H xs) ys"
  by (induction H xs rule: held.induct) simp_all

lemma calls_held_append:
  "calls_held H (xs @ ys) = calls_held H xs @ calls_held (held H xs) ys"
proof (induction xs arbitrary: H)
  case Nil
  then show ?case by simp
next
  case (Cons e xs)
  have "held H (e # xs) = held (held H [e]) xs"
    using held_append [of H "[e]" xs] by simp
  with Cons show ?case
    by simp
qed

lemma calls_value_resets:
  "calls_held H (map ValueReset vs) = [] \<and> held H (map ValueReset vs) = H"
  by (induction vs) (simp_all add: engine_call_def host_callback_def)

lemma calls_context_resets:
  "calls_held H (map (\<lambda>d. ContextReset (ctx_ptr d)) ds) = []
   \<and> held H (map (\<lambda>d. ContextReset (ctx_ptr d)) ds) = H"
  by (induction ds) (simp_all add: engine_call_def host_callback_def)

lemma calls_context_releases:
  "calls_held H (map (\<lambda>c. ContextZombieRelease (ctx_ptr c)) cs) = []
   \<and> held H (map (\<lambda>c. ContextZombieRelease (ctx_ptr c)) cs) = H"
  by (induction cs) (simp_all add: engine_call_def host_callback_def)

lemma calls_context_passes:
  "(\<forall>x \<in> set (calls_held H (concat (map (context_zombie_pass b) cs))). engine_call (fst x) \<and> snd x = H)
   \<and> held H (concat (map (context_zombie_pass b) cs)) = H"
  by (induction cs)
    (auto simp: context_zombie_pass_def calls_held_append held_append engine_call_def
      host_callback_def)


lemma FreeZombies_calls:
  "(\<forall>x \<in> set (calls_held {} (fst (FreeZombies b g))). engine_call (fst x) \<and> snd x = {m_zombie_mutex})
   \<and> (snd (FreeZombies b g) \<noteq> None \<longrightarrow> held {} (fst (FreeZombies b g)) = {})"
proof (cases "\<not> DEBUG b \<or> (\<forall>c \<in> set (m_context_zombies g). IsDefunct c)")
  case True
  show ?thesis
    using calls_context_passes [of "{m_zombie_mutex}" b "m_context_zombies g"]
    by (simp add: FreeZombies_returns [OF True] calls_held_append held_append calls_value_resets
        calls_context_releases engine_call_def host_callback_def)
next
  case False
  then have d: "DEBUG b" and "\<exists>c \<in> set (m_context_zombies g). \<not> IsDefunct c"
    by auto
  then obtain ds c rest where
    s: "m_context_zombies g = ds @ c # rest" "\<forall>d \<in> set ds. IsDefunct d" "\<not> IsDefunct c"
    using split_first_not_defunct by blast
  show ?thesis
    by (simp add: FreeZombies_asserts [OF d s] calls_held_append held_append calls_value_resets
        calls_context_resets engine_call_def host_callback_def)
qed

lemma calls_find_inContextCallback:
  "calls_held H (fst (find_inContextCallback st r n c supers)) = []
   \<and> held H (fst (find_inContextCallback st r n c supers)) = H"
proof (induction supers arbitrary: n c)
  case Nil
  then show ?case
    by (simp add: calls_held_append held_append engine_call_def host_callback_def)
next
  case (Cons s ss)
  from Cons [of "Suc n" s] show ?case
    by (cases "find_inContextCallback st r (Suc n) s ss")
      (simp add: calls_held_append held_append engine_call_def host_callback_def)
qed

lemma calls_run_Runnable:
  "(\<forall>x \<in> set (calls_held H (fst (run_Runnable r))). host_callback (fst x) \<and> snd x = H)
   \<and> held H (fst (run_Runnable r)) = H"
proof (cases "c_runnable r")
  case (Some f)
  then show ?thesis
    by (simp add: run_Runnable_def engine_call_def host_callback_def)
next
  case None
  obtain t u where f: "find_inContextCallback (jvm_GetEnv r) (rid r) 0 (thiz_class r) (thiz_supers r) = (t, u)"
    by (cases "find_inContextCallback (jvm_GetEnv r) (rid r) 0 (thiz_class r) (thiz_supers r)")
  from calls_find_inContextCallback [of H "jvm_GetEnv r" "rid r" 0 "thiz_class r" "thiz_supers r"] f
  have "calls_held H t = []" and "held H t = H"
    by simp_all
  with None f show ?thesis
    by (cases u)
      (simp_all add: run_Runnable_def calls_held_append held_append engine_call_def
        host_callback_def)
qed

lemma calls_arrivals:
  "calls_held H (map (\<lambda>a. Scheduled (rid a)) as) = []
   \<and> held H (map (\<lambda>a. Scheduled (rid a)) as) = H"
  by (induction as) (simp_all add: engine_call_def host_callback_def)

lemma calls_task_turn:
  "(\<forall>x \<in> set (calls_held {m_async_mutex} (task_turn r)). host_callback (fst x) \<and> snd x = {})
   \<and> held {m_async_mutex} (task_turn r) = {m_async_mutex}"
  using calls_run_Runnable [of "{}" r]
  by (simp add: task_turn_def calls_held_append held_append calls_arrivals engine_call_def
      host_callback_def)

lemma calls_turns:
  "(\<forall>x \<in> set (calls_held {m_async_mutex} (concat (map task_turn rs))).
      host_callback (fst x) \<and> snd x = {})
   \<and> held {m_async_mutex} (concat (map task_turn rs)) = {m_async_mutex}"
proof (induction rs)
  case Nil
  then show ?case by simp
next
  case (Cons r rs)
  from calls_task_turn [of r] Cons show ?case
    by (simp add: calls_held_append held_append ball_Un)
qed

lemma calls_drain:
  "\<forall>x \<in> set (calls_held {m_async_mutex} (fst (drain q))). host_callback (fst x) \<and> snd x = {}"
proof (cases "snd (drain q)")
  case None
  then have "drain q = (fst (drain q), None)"
    by (metis prod.collapse)
  then obtain rs r where
    "fst (drain q) = concat (map task_turn rs) @ Unlock m_async_mutex # fst (run_Runnable r)"
    using drain_asserts by blast
  then show ?thesis
    using calls_turns [of rs] calls_run_Runnable [of "{}" r]
    by (auto simp: calls_held_append held_append engine_call_def host_callback_def)
next
  case (Some q')
  then have "drain q = (fst (drain q), Some q')"
    by (metis prod.collapse)
  then obtain rs where "fst (drain q) = concat (map task_turn rs)"
    using drain_returns by blast
  then show ?thesis
    using calls_turns [of rs] by simp
qed

lemma callback_calls:
  "\<forall>x \<in> set (calls_held {} (fst (callback b h g))).
     (host_callback (fst x) \<and> snd x = {}) \<or> (engine_call (fst x) \<and> snd x = {m_zombie_mutex})"
proof -
  obtain ztr zr where z: "FreeZombies b g = (ztr, zr)"
    by (cases "FreeZombies b g")
  from FreeZombies_calls [of b g] z
  have zc: "\<forall>x \<in> set (calls_held {} ztr). engine_call (fst x) \<and> snd x = {m_zombie_mutex}"
    and zh: "zr \<noteq> None \<longrightarrow> held {} ztr = {}"
    by simp_all
  show ?thesis
  proof (cases zr)
    case None
    with z zc show ?thesis
      by (auto simp: callback_asserts_in_zombies engine_call_def host_callback_def)
  next
    case (Some g1)
    obtain dtr dres where d: "drain (m_runnables g) = (dtr, dres)"
      by (cases "drain (m_runnables g)")
    from calls_drain [of "m_runnables g"] d
    have dc: "\<forall>x \<in> set (calls_held {m_async_mutex} dtr). host_callback (fst x) \<and> snd x = {}"
      by simp
    from Some zh have h: "held {} ztr = {}"
      by simp
    from callback_after_zombies [OF z [unfolded Some] d, of h] zc dc h show ?thesis
      by (cases dres)
        (auto simp: calls_held_append held_append engine_call_def host_callback_def)
  qed
qed

lemma calls_GCPrologueCallback:
  "\<forall>x \<in> set (calls_held H (GCPrologueCallback g t f)). host_callback (fst x) \<and> snd x = H"
proof -
  have "\<forall>x \<in> set (calls_held H (map (\<lambda>item. GCCallbackCall (cb item) t f (data item)) l)).
      host_callback (fst x) \<and> snd x = H" for l
    by (induction l) (simp_all add: engine_call_def host_callback_def)
  then show ?thesis
    by (simp add: GCPrologueCallback_def)
qed

lemma held_GCPrologueCallback: "held H (GCPrologueCallback g t f) = H"
proof -
  have "held H (map (\<lambda>item. GCCallbackCall (cb item) t f (data item)) l) = H" for l
    by (induction l) simp_all
  then show ?thesis
    by (simp add: GCPrologueCallback_def)
qed

lemma StaticGCPrologueCallback_calls:
  "\<forall>x \<in> set (calls_held {} (StaticGCPrologueCallback p groups i t f)).
     host_callback (fst x) \<and> snd x = {s_mutex}"
  using calls_GCPrologueCallback [of "{s_mutex}"]
  by (auto simp: StaticGCPrologueCallback_def calls_held_append held_append
      held_GCPrologueCallback engine_call_def host_callback_def split: option.splits)


lemma calls_managed:
  "calls_held H (map JSValueDispose xs) = [] \<and> held H (map JSValueDispose xs) = H"
  "calls_held H (map JSContextDispose xs) = [] \<and> held H (map JSContextDispose xs) = H"
  by (induction xs) (simp_all add: engine_call_def host_callback_def)

lemma Dispose_calls:
  "\<forall>x \<in> set (calls_held {} (fst (Dispose b owned (p, g)))).
     engine_call (fst x) \<and> (snd x = {} \<or> snd x = {m_zombie_mutex})"
proof (cases "m_isDefunct g \<or> \<not> owned")
  case True
  then show ?thesis
    by (auto simp: Dispose_def)
next
  case False
  then have n: "\<not> m_isDefunct g" and o: owned
    by simp_all
  from FreeZombies_calls [of b g]
  have zc: "\<forall>x \<in> set (calls_held {} (fst (FreeZombies b g))).
      engine_call (fst x) \<and> snd x = {m_zombie_mutex}"
    and zh: "snd (FreeZombies b g) \<noteq> None \<longrightarrow> held {} (fst (FreeZombies b g)) = {}"
    by simp_all
  show ?thesis
  proof (cases "snd (FreeZombies b g) = None")
    case True
    from zc o show ?thesis
      by (auto simp: Dispose_asserts [OF n True] calls_held_append held_append calls_managed
          engine_call_def host_callback_def)
  next
    case False
    with zh have h: "held {} (fst (FreeZombies b g)) = {}"
      by simp
    from zc h o show ?thesis
      by (auto simp: Dispose_returns [OF n False] calls_held_append held_append calls_managed
          engine_call_def host_callback_def)
  qed
qed

text \<open>
  Claim C5, as amended.  The queue mutex \<^verbatim>\<open>m_async_mutex\<close> and the registry mutex
  \<^verbatim>\<open>s_mutex\<close> are never held while the dispatch callback or \<^verbatim>\<open>Dispose\<close> is inside a
  call of the engine instance, and no mutex at all is held while the dispatch callback
  delivers a task body (native closure or Java runnable).  But the zombie mutex is held
  during every engine call that \<^verbatim>\<open>FreeZombies\<close> makes (entering the isolate, the call
  of \<^verbatim>\<open>process.exit\<close>, leaving the isolate), also when \<^verbatim>\<open>FreeZombies\<close> runs inside
  the dispatch callback or \<^verbatim>\<open>Dispose\<close>; and the registry mutex is held while
  \<^verbatim>\<open>StaticGCPrologueCallback\<close> delivers the registered GC callbacks.
\<close>

theorem mutexes_at_calls:
  "(\<forall>x \<in> set (calls_held {} (fst (callback b h g))).
      (host_callback (fst x) \<and> snd x = {}) \<or> (engine_call (fst x) \<and> snd x = {m_zombie_mutex}))
   \<and> (\<forall>x \<in> set (calls_held {} (fst (FreeZombies b g))).
        engine_call (fst x) \<and> snd x = {m_zombie_mutex})
   \<and> (\<forall>x \<in> set (calls_held {} (fst (Dispose b owned (p, g)))).
        engine_call (fst x) \<and> (snd x = {} \<or> snd x = {m_zombie_mutex}))
   \<and> (\<forall>x \<in> set (calls_held {} (StaticGCPrologueCallback p groups i t f)).
        host_callback (fst x) \<and> snd x = {s_mutex})"
  using callback_calls [of b h g] FreeZombies_calls [of b g] Dispose_calls [of b owned p g]
    StaticGCPrologueCallback_calls [of p groups i t f]
  by blast

theorem mutexes_at_calls_witness:
  "calls_held {} (fst (callback release_build 9 example_group)) =
     [(V8_ISOLATE_CTX 52, {m_zombie_mutex}), (ProcessExit 52 (- 222), {m_zombie_mutex}),
      (V8_UNLOCK 52, {m_zombie_mutex}), (V8_ISOLATE_CTX 53, {m_zombie_mutex}),
      (ProcessExit 53 (- 222), {m_zombie_mutex}), (V8_UNLOCK 53, {m_zombie_mutex}),
      (CallCRunnable 1 10, {}), (CallVoidMethod 2, {}), (CallCRunnable 3 30, {})]
   \<and> host_callback (CallVoidMethod 2) \<and> engine_call (V8_ISOLATE_CTX 52)"
proof -
  have c: "calls_held {} (fst (callback release_build 9 example_group)) =
     [(V8_ISOLATE_CTX 52, {m_zombie_mutex}), (ProcessExit 52 (- 222), {m_zombie_mutex}),
      (V8_UNLOCK 52, {m_zombie_mutex}), (V8_ISOLATE_CTX 53, {m_zombie_mutex}),
      (ProcessExit 53 (- 222), {m_zombie_mutex}), (V8_UNLOCK 53, {m_zombie_mutex}),
      (CallCRunnable 1 10, {}), (CallVoidMethod 2, {}), (CallCRunnable 3 30, {})]"
    unfolding callback_example fst_conv
    by (simp add: engine_call_def host_callback_def)
  from mutexes_at_calls [of release_build 9 example_group]
  have "\<forall>x \<in> set (calls_held {} (fst (callback release_build 9 example_group))).
      (host_callback (fst x) \<and> snd x = {}) \<or> (engine_call (fst x) \<and> snd x = {m_zombie_mutex})"
    by blast
  with c have "host_callback (CallVoidMethod 2) \<and> engine_call (V8_ISOLATE_CTX 52)"
    by simp
  with c show ?thesis
    by simp
qed

text \<open>
  The claim as it stands fails: \<^verbatim>\<open>FreeZombies\<close> calls \<^verbatim>\<open>process.exit\<close> of the
  context 52 with the zombie mutex held, and \<^verbatim>\<open>StaticGCPrologueCallback\<close> delivers
  the GC callback 2 with the registry mutex held.
\<close>

theorem mutexes_at_calls_counterexample:
  "engine_call (ProcessExit 52 (- 222))
   \<and> (ProcessExit 52 (- 222), {m_zombie_mutex})
       \<in> set (calls_held {} (fst (FreeZombies release_build example_group)))
   \<and> host_callback (GCCallbackCall 2 0 0 5)
   \<and> (GCCallbackCall 2 0 0 5, {s_mutex})
       \<in> set (calls_held {} (StaticGCPrologueCallback example_process example_groups 7 0 0))"
  by (simp add: FreeZombies_def StaticGCPrologueCallback_def GCPrologueCallback_def
      example_groups_def example_group_def example_process_def release_build_def
      engine_call_def host_callback_def)

subsection \<open>sync_\<close>

lemma sync_inv_init: "sync_inv sync_init"
  by (simp add: sync_inv_def sync_init_def)

lemma sync_inv_caller_step: "sync_inv s \<Longrightarrow> sync_inv (caller_step s)"
  by (cases "caller s") (auto simp: sync_inv_def caller_step_def)

lemma sync_inv_owner_step: "sync_inv s \<Longrightarrow> sync_inv (owner_step s)"
  by (cases "owner s") (auto simp: sync_inv_def owner_step_def)

lemma sync_inv_step: "sync_inv s \<Longrightarrow> sync_inv (step a s)"
proof (cases a)
  case Caller_step
  assume "sync_inv s"
  with Caller_step show ?thesis by (simp add: step_def sync_inv_caller_step)
next
  case Owner_step
  assume "sync_inv s"
  with Owner_step show ?thesis by (simp add: step_def sync_inv_owner_step)
next
  case Spurious_wakeup
  assume "sync_inv s"
  with Spurious_wakeup show ?thesis by (auto simp: step_def sync_inv_def)
next
  case Other_lock
  assume "sync_inv s"
  with Other_lock show ?thesis by (auto simp: step_def sync_inv_def)
next
  case Other_unlock
  assume "sync_inv s"
  with Other_unlock show ?thesis by (auto simp: step_def sync_inv_def)
next
  case Dispose_clear
  assume "sync_inv s"
  with Dispose_clear show ?thesis by (auto simp: step_def sync_inv_def)
next
  case Caller_throws
  assume "sync_inv s"
  with Caller_throws show ?thesis by (auto simp: step_def sync_inv_def)
qed

lemma sync_inv_run: "sync_inv s \<Longrightarrow> sync_inv (run sched s)"
  by (induction sched arbitrary: s) (simp_all add: sync_inv_step)

text \<open>
  Claim C9.  On every schedule of the caller, the owning thread and the other threads:
  the completion flag \<^verbatim>\<open>signaled\<close> is true only when \<^verbatim>\<open>runnable()\<close> has been entered
  by the owning thread and has returned, and \<^verbatim>\<open>sync_\<close> has returned only when the flag
  is true; so \<^verbatim>\<open>sync_\<close> never returns before the task body has fully executed on the
  owning thread.
\<close>

theorem sync_returns_after_runnable:
  "(signaled (run sched sync_init) \<longrightarrow> runnable_finished (run sched sync_init))
   \<and> (caller (run sched sync_init) = Sync_returned \<longrightarrow>
        signaled (run sched sync_init) \<and> runnable_finished (run sched sync_init))"
  using sync_inv_run [OF sync_inv_init, of sched]
  by (auto simp: sync_inv_def runnable_finished_def)

theorem sync_returns_after_runnable_witness:
  "caller (run example_schedule sync_init) = Sync_returned
   \<and> signaled (run example_schedule sync_init)
   \<and> runnable_finished (run example_schedule sync_init)"
proof -
  have "caller (run example_schedule sync_init) = Sync_returned"
    by (simp add: example_schedule_def sync_init_def step_def caller_step_def owner_step_def)
  with sync_returns_after_runnable [of example_schedule] show ?thesis
    by blast
qed

subsection \<open>ContextGroup::New\<close>

text \<open>
  When \<^verbatim>\<open>ftell\<close> reports a size and \<^verbatim>\<open>new char[size]\<close> gets its memory, \<^verbatim>\<open>New\<close>
  returns a group, and the group has no snapshot blob and no startup data when the file
  cannot be opened or \<^verbatim>\<open>fread\<close> delivers another number of bytes than that size.
  When the allocation fails, as for a directory whose \<^verbatim>\<open>ftell\<close> answers \<^verbatim>\<open>LONG_MAX\<close>,
  \<^verbatim>\<open>New\<close> throws.
\<close>

lemma New_fallback:
  "\<not> fopen_ok f \<or> (0 \<le> ftell_result f \<and> new_char_ok f) \<Longrightarrow>
     \<exists>tr p' g. New f this isolate tid p = Inr (tr, p', g)
       \<and> (\<not> fopen_ok f \<or> int (length (fread_bytes f)) \<noteq> ftell_result f \<longrightarrow>
            \<not> snapshot_blob g \<and> m_startup_data g = (None, 0))"
  by (cases "init_v8 p")
    (auto simp: New_def ContextGroup_new_def ContextGroup_snapshot_def)

lemma New_allocation_fails:
  "fopen_ok f \<Longrightarrow> \<not> new_char_ok f \<Longrightarrow> New f this isolate tid p = Inl bad_alloc"
  by (simp add: New_def)

lemma New_directory:
  "New directory_file 100 7 1 fresh_process = Inl bad_alloc"
  by (simp add: New_def directory_file_def)

lemma New_examples:
  "\<exists>tr p' g. New missing_file 100 7 1 fresh_process = Inr (tr, p', g) \<and> \<not> snapshot_blob g"
  "\<exists>tr p' g. New short_read_file 100 7 1 fresh_process = Inr (tr, p', g) \<and> \<not> snapshot_blob g"
  "\<exists>tr p' g. New whole_file 100 7 1 fresh_process = Inr (tr, p', g) \<and> snapshot_blob g
     \<and> m_startup_data g = (Some [1, 2, 3, 4], 4)"
  by (simp_all add: New_def ContextGroup_new_def ContextGroup_snapshot_def init_v8_def
      missing_file_def short_read_file_def whole_file_def fresh_process_def)

text \<open>
  Claim C7.  The claim is that \<^verbatim>\<open>New\<close> returns a group for every path.  The source
  falls back when \<^verbatim>\<open>fopen\<close> fails and when \<^verbatim>\<open>fread\<close> is short, but it does not
  test what \<^verbatim>\<open>ftell\<close> returns: for a path that opens and cannot tell its position
  \<^verbatim>\<open>ftell\<close> returns \<open>-1\<close>, and \<^verbatim>\<open>new char[size]\<close> throws.  No group is returned.
\<close>

theorem New_unseekable_throws:
  "New unseekable_file 100 7 1 fresh_process = Inl bad_alloc"
  by (simp add: New_def unseekable_file_def)

end
